theory Spec2Isabelle
  imports Main "HOL-Library.Word" "HOL-Library.Char_ord" "HOL-Library.List_Lexorder"
    "HOL-Library.Multiset"
begin

section \<open>Data model (Graph.h)\<close>

text \<open>
  A C++ \<^verbatim>\<open>int\<close> that takes part in arithmetic (edge weights, the running cost, ranks) is
  a 32-bit word: \<open>+\<close> wraps, \<open>sint\<close> reads the two's-complement value, and \<^verbatim>\<open><\<close> is
  the comparison of the \<open>sint\<close> values.  A vertex index is only stored, compared
  and used as a subscript, so it is an \<open>int\<close>, with the range check of every subscript
  written out.

  A result \<open>None\<close> means that the C++ program has no defined result: a subscript outside
  a vector, an uncaught \<^verbatim>\<open>std::out_of_range\<close> or \<^verbatim>\<open>std::length_error\<close>, or a recursion
  that never comes back.
\<close>

record edge =
  edge_id :: string
  weight :: "32 word"
  src :: string
  dst :: string

text \<open>
  \<^verbatim>\<open>map<string, int> vertices\<close> is kept as the list of its entries in key order (the
  order in which the map is iterated), one entry per key.
\<close>

record graph =
  numVertices :: int
  numEdges :: int
  parent :: "int list"
  rnk :: "32 word list"
  vertices :: "(string \<times> int) list"
  edges :: "edge list"

definition Graph :: "int \<Rightarrow> int \<Rightarrow> graph" where
  "Graph v e = \<lparr>numVertices = v, numEdges = e, parent = [], rnk = [], vertices = [], edges = []\<rparr>"

section \<open>Edge sort (Graph.cpp, mergeEdges, sortEdges, sort)\<close>

text \<open>
  The three loops of \<^verbatim>\<open>mergeEdges\<close> over the positions \<open>i\<close> and \<open>j\<close>: the first runs
  while both vectors have an element left and takes the head of \<open>v1\<close> only when its
  weight is strictly smaller; the other two copy what is left.
\<close>

fun mergeEdges :: "edge list \<Rightarrow> edge list \<Rightarrow> edge list" where
  "mergeEdges (x # xs) (y # ys) =
     (if sint (weight x) < sint (weight y) then x # mergeEdges xs (y # ys)
      else y # mergeEdges (x # xs) ys)"
| "mergeEdges xs [] = xs"
| "mergeEdges [] ys = ys"

text \<open>
  \<^verbatim>\<open>sortEdges(v, low, hi)\<close>.  \<^verbatim>\<open>v.at(low)\<close> throws outside the vector.  With \<open>hi < low\<close>
  the C++ recursion never reaches \<open>low = hi\<close> and does not return.  \<^verbatim>\<open>sort\<close> calls it
  with \<open>0\<close> and \<open>size - 1\<close> on a non-empty vector only, so the bounds are naturals.
\<close>

function sortEdges :: "edge list \<Rightarrow> nat \<Rightarrow> nat \<Rightarrow> edge list option" where
  "sortEdges v low hi =
     (if low = hi then (if low < length v then Some [v ! low] else None)
      else if hi < low then None
      else
        (case sortEdges v low ((low + hi) div 2) of
           None \<Rightarrow> None
         | Some lower \<Rightarrow>
            (case sortEdges v ((low + hi) div 2 + 1) hi of
               None \<Rightarrow> None
             | Some upper \<Rightarrow> Some (mergeEdges lower upper))))"
  by pat_completeness auto
termination
  by (relation "measure (\<lambda>(v, low, hi). hi - low)") auto

declare sortEdges.simps [simp del]

definition sort_g :: "graph \<Rightarrow> graph option" where
  "sort_g g =
     (if edges g = [] then Some g
      else map_option (\<lambda>es. g\<lparr>edges := es\<rparr>) (sortEdges (edges g) 0 (length (edges g) - 1)))"

section \<open>Disjoint sets (make_set, find_set, union_set)\<close>

text \<open>\<^verbatim>\<open>vector::resize(n)\<close>: cut to \<open>n\<close> elements, or filled up with value-initialised ones.\<close>

definition resize :: "'a list \<Rightarrow> nat \<Rightarrow> 'a \<Rightarrow> 'a list" where
  "resize xs n z = take n xs @ replicate (n - length xs) z"

fun make_set_loop ::
  "(string \<times> int) list \<Rightarrow> int list \<Rightarrow> 32 word list \<Rightarrow> (int list \<times> 32 word list) option" where
  "make_set_loop [] p r = Some (p, r)"
| "make_set_loop (kv # kvs) p r =
     (let vertex = snd kv in
      if 0 \<le> vertex \<and> vertex < int (length p) \<and> vertex < int (length r)
      then make_set_loop kvs (p[nat vertex := vertex]) (r[nat vertex := 0])
      else None)"

definition make_set :: "graph \<Rightarrow> graph option" where
  "make_set g =
     (if numVertices g < 0 then None
      else
        (case make_set_loop (vertices g)
                (resize (parent g) (nat (numVertices g)) 0)
                (resize (rnk g) (nat (numVertices g)) 0) of
           None \<Rightarrow> None
         | Some (p, r) \<Rightarrow> Some (g\<lparr>parent := p, rnk := r\<rparr>)))"

text \<open>
  \<^verbatim>\<open>find_set\<close> returns the representative together with the compressed parent vector.
  On a parent vector with a cycle the C++ recursion does not come back; the function is
  partial, and not returning is \<open>None\<close>.
\<close>

partial_function (option) find_set :: "int list \<Rightarrow> int \<Rightarrow> (int \<times> int list) option" where
  "find_set p a =
     (if a < 0 \<or> int (length p) \<le> a then None
      else if p ! nat a = a then Some (a, p)
      else Option.bind (find_set p (p ! nat a)) (\<lambda>(r, p'). Some (r, p'[nat a := r])))"

declare find_set.simps [code]

definition union_set ::
  "int list \<Rightarrow> 32 word list \<Rightarrow> int \<Rightarrow> int \<Rightarrow> (bool \<times> int list \<times> 32 word list) option" where
  "union_set p r a0 b0 =
     Option.bind (find_set p a0) (\<lambda>(a, p1).
     Option.bind (find_set p1 b0) (\<lambda>(b, p2).
       if a = b then Some (False, p2, r)
       else if \<not> (nat a < length r \<and> nat b < length r) then None
       else
         let (a', b') = (if sint (r ! nat a) < sint (r ! nat b) then (b, a) else (a, b));
             p3 = p2[nat b' := a'];
             r' = (if r ! nat a' = r ! nat b' then r[nat a' := r ! nat a' + 1] else r)
         in Some (True, p3, r')))"

section \<open>Vertices and edges (addVertex, getIndex, addEdge)\<close>

text \<open>\<^verbatim>\<open>map::emplace\<close> inserts only when the key is not in the map yet.\<close>

definition addVertex :: "graph \<Rightarrow> string \<Rightarrow> int \<Rightarrow> graph" where
  "addVertex g vertexName vertexIndex =
     (case map_of (vertices g) vertexName of
        Some _ \<Rightarrow> g
      | None \<Rightarrow> g\<lparr>vertices := insort_key fst (vertexName, vertexIndex) (vertices g)\<rparr>)"

definition getIndex :: "graph \<Rightarrow> string \<Rightarrow> int" where
  "getIndex g vertexName =
     (case map_of (vertices g) vertexName of None \<Rightarrow> - 1 | Some i \<Rightarrow> i)"

definition addEdge :: "graph \<Rightarrow> string \<Rightarrow> 32 word \<Rightarrow> string \<Rightarrow> string \<Rightarrow> graph" where
  "addEdge g edgeId w s d =
     g\<lparr>edges := edges g @ [\<lparr>edge_id = edgeId, weight = w, src = s, dst = d\<rparr>]\<rparr>"

section \<open>Classic computation (mst)\<close>

text \<open>
  The loop over the sorted edges.  \<^verbatim>\<open>a >= 0 && b >= 0 && union_set(a, b)\<close> calls
  \<^verbatim>\<open>union_set\<close> only when both names were found.
\<close>

fun mst_loop ::
  "graph \<Rightarrow> edge list \<Rightarrow> edge list \<Rightarrow> 32 word \<Rightarrow> (edge list \<times> 32 word \<times> graph) option" where
  "mst_loop g [] minimumSpanningTree cost = Some (minimumSpanningTree, cost, g)"
| "mst_loop g (e # es) minimumSpanningTree cost =
     (let a = getIndex g (src e); b = getIndex g (dst e) in
      if 0 \<le> a \<and> 0 \<le> b then
        (case union_set (parent g) (rnk g) a b of
           None \<Rightarrow> None
         | Some (u, p, r) \<Rightarrow>
            if u then mst_loop (g\<lparr>parent := p, rnk := r\<rparr>) es
                       (minimumSpanningTree @ [e]) (cost + weight e)
            else mst_loop (g\<lparr>parent := p, rnk := r\<rparr>) es minimumSpanningTree cost)
      else mst_loop g es minimumSpanningTree cost)"

text \<open>The result is the returned vector, the cost written to the reference, and the engine.\<close>

definition mst :: "graph \<Rightarrow> (edge list \<times> 32 word \<times> graph) option" where
  "mst g =
     Option.bind (sort_g g) (\<lambda>g1.
     Option.bind (make_set g1) (\<lambda>g2.
       mst_loop g2 (edges g2) [] 0))"

section \<open>Traced computation (json_escape, mst_steps_json)\<close>

primrec json_escape :: "string \<Rightarrow> string" where
  "json_escape [] = []"
| "json_escape (c # s) =
     (if c = CHR 0x22 then [CHR 0x5C, CHR 0x22]
      else if c = CHR 0x5C then [CHR 0x5C, CHR 0x5C]
      else if c = CHR 0x0A then [CHR 0x5C, CHR ''n'']
      else if c = CHR 0x0D then [CHR 0x5C, CHR ''r'']
      else if c = CHR 0x09 then [CHR 0x5C, CHR ''t'']
      else [c]) @ json_escape s"

text \<open>What one pass of the loop body writes: the object of lines 171 to 191.\<close>

record step =
  consideredEdgeId :: string
  accepted :: bool
  totalWeight :: "32 word"
  mstEdgeIds :: "string list"
  rejectedEdgeIds :: "string list"

text \<open>\<^verbatim>\<open>ostream << int\<close>: the decimal digits, after a minus sign for a negative value.\<close>

fun show_nat :: "nat \<Rightarrow> string" where
  "show_nat n =
     (if n < 10 then [''0123456789'' ! n]
      else show_nat (n div 10) @ [''0123456789'' ! (n mod 10)])"

declare show_nat.simps [simp del]

definition show_int :: "int \<Rightarrow> string" where
  "show_int i = (if i < 0 then CHR ''-'' # show_nat (nat (- i)) else show_nat (nat i))"

text \<open>The loops of lines 178 to 181 and 185 to 188: quoted, escaped, comma separated.\<close>

fun id_list_json :: "string list \<Rightarrow> string" where
  "id_list_json [] = []"
| "id_list_json [x] = [CHR 0x22] @ json_escape x @ [CHR 0x22]"
| "id_list_json (x # xs) = [CHR 0x22] @ json_escape x @ [CHR 0x22] @ '','' @ id_list_json xs"

definition step_json :: "step \<Rightarrow> string" where
  \<open>step_json st =
     ''{'' @
     ''"consideredEdgeId":"'' @ json_escape (consideredEdgeId st) @ ''",'' @
     ''"action":"'' @ (if accepted st then ''accept'' else ''reject'') @ ''",'' @
     ''"reason":"'' @ (if accepted st then ''ok'' else ''cycle'') @ ''",'' @
     ''"totalWeight":'' @ show_int (sint (totalWeight st)) @ '','' @
     ''"mstEdgeIds":['' @ id_list_json (mstEdgeIds st) @ ''],'' @
     ''"rejectedEdgeIds":['' @ id_list_json (rejectedEdgeIds st) @ '']'' @
     ''}''\<close>

fun steps_json :: "step list \<Rightarrow> string" where
  "steps_json [] = []"
| "steps_json [x] = step_json x"
| "steps_json (x # xs) = step_json x @ '','' @ steps_json xs"

text \<open>
  The loop of \<^verbatim>\<open>mst_steps_json\<close>, with the objects it writes collected in \<open>out\<close>.
  An edge with a name that was not found leaves \<open>accepted\<close> false and goes on through
  the rest of the body like any rejected edge.
\<close>

fun steps_loop ::
  "graph \<Rightarrow> edge list \<Rightarrow> string list \<Rightarrow> string list \<Rightarrow> 32 word \<Rightarrow> step list \<Rightarrow>
     (step list \<times> 32 word \<times> graph) option" where
  "steps_loop g [] mstIds rejIds tot out = Some (out, tot, g)"
| "steps_loop g (e # es) mstIds rejIds tot out =
     (let a = getIndex g (src e); b = getIndex g (dst e) in
      case (if 0 \<le> a \<and> 0 \<le> b
            then map_option (\<lambda>(u, p, r). (u, g\<lparr>parent := p, rnk := r\<rparr>))
                   (union_set (parent g) (rnk g) a b)
            else Some (False, g)) of
        None \<Rightarrow> None
      | Some (acc, g') \<Rightarrow>
          let mstIds' = (if acc then mstIds @ [edge_id e] else mstIds);
              tot' = (if acc then tot + weight e else tot);
              rejIds' = (if acc then rejIds else rejIds @ [edge_id e])
          in steps_loop g' es mstIds' rejIds' tot'
               (out @ [\<lparr>consideredEdgeId = edge_id e, accepted = acc, totalWeight = tot',
                        mstEdgeIds = mstIds', rejectedEdgeIds = rejIds'\<rparr>]))"

definition mst_steps :: "graph \<Rightarrow> (step list \<times> 32 word \<times> graph) option" where
  "mst_steps g =
     Option.bind (sort_g g) (\<lambda>g1.
     Option.bind (make_set g1) (\<lambda>g2.
       steps_loop g2 (edges g2) [] [] 0 []))"

definition trace_json :: "step list \<Rightarrow> 32 word \<Rightarrow> string" where
  \<open>trace_json out tot =
     ''{'' @ ''"steps":['' @ steps_json out @ ''],'' @
     ''"mstWeight":'' @ show_int (sint tot) @ ''}''\<close>

definition mst_steps_json :: "graph \<Rightarrow> (string \<times> graph) option" where
  "mst_steps_json g = map_option (\<lambda>(out, tot, g'). (trace_json out tot, g')) (mst_steps g)"

section \<open>Notions used to state the properties\<close>

text \<open>The sort key of an edge: its weight as the signed number the comparison reads.\<close>

definition wkey :: "edge \<Rightarrow> int" where
  "wkey e = sint (weight e)"

text \<open>The elements of \<open>v\<close> at the positions \<open>low\<close> to \<open>hi\<close>, both included.\<close>

definition segment :: "'a list \<Rightarrow> nat \<Rightarrow> nat \<Rightarrow> 'a list" where
  "segment v low hi = take (Suc hi - low) (drop low v)"

subsection \<open>Vertices and edges\<close>

text \<open>The indices held by the vertex map: the vertices that \<^verbatim>\<open>make_set\<close> initialises.\<close>

definition registered :: "graph \<Rightarrow> int set" where
  "registered g = snd ` set (vertices g)"

text \<open>What the caller of \<^verbatim>\<open>addVertex\<close> has to guarantee: every registered index lies
  in \<open>[0, numVertices)\<close>.\<close>

definition well_formed :: "graph \<Rightarrow> bool" where
  "well_formed g \<longleftrightarrow>
     0 \<le> numVertices g \<and> (\<forall>kv\<in>set (vertices g). 0 \<le> snd kv \<and> snd kv < numVertices g)"

text \<open>An edge is resolvable when both its names are found, with an index that passes the test
  \<^verbatim>\<open>a >= 0 && b >= 0\<close>; its endpoints are the two indices.\<close>

definition resolvable :: "graph \<Rightarrow> edge \<Rightarrow> bool" where
  "resolvable g e \<longleftrightarrow> 0 \<le> getIndex g (src e) \<and> 0 \<le> getIndex g (dst e)"

definition endpoints :: "graph \<Rightarrow> edge \<Rightarrow> int \<times> int" where
  "endpoints g e = (getIndex g (src e), getIndex g (dst e))"

definition edge_pairs :: "graph \<Rightarrow> edge list \<Rightarrow> (int \<times> int) list" where
  "edge_pairs g es = map (endpoints g) (filter (resolvable g) es)"

text \<open>The vertices referenced by edges: the indices that some edge names as source or destination.\<close>

definition ref_vertices :: "graph \<Rightarrow> int set" where
  "ref_vertices g =
     {i. 0 \<le> i \<and> (\<exists>e\<in>set (edges g). i = getIndex g (src e) \<or> i = getIndex g (dst e))}"

subsection \<open>Parent forests\<close>

text \<open>\<open>root_of p a r\<close>: following the parent entries from \<open>a\<close> stays inside the vector and ends
  at \<open>r\<close>, an entry that is its own parent.\<close>

inductive root_of :: "int list \<Rightarrow> int \<Rightarrow> int \<Rightarrow> bool" for p :: "int list" where
  root: "0 \<le> a \<Longrightarrow> a < int (length p) \<Longrightarrow> p ! nat a = a \<Longrightarrow> root_of p a a"
| step: "0 \<le> a \<Longrightarrow> a < int (length p) \<Longrightarrow> p ! nat a \<noteq> a \<Longrightarrow> root_of p (p ! nat a) r \<Longrightarrow>
         root_of p a r"

text \<open>Two vertices are in the same component when they have the same representative.\<close>

definition same_set :: "int list \<Rightarrow> int \<Rightarrow> int \<Rightarrow> bool" where
  "same_set p a b \<longleftrightarrow> (\<exists>r. root_of p a r \<and> root_of p b r)"

definition roots :: "int set \<Rightarrow> int list \<Rightarrow> int set" where
  "roots R p = {r. \<exists>x\<in>R. root_of p x r}"

text \<open>The parent entries of the vertices in \<open>R\<close> are valid subscripts and stay in \<open>R\<close>.\<close>

definition closed_in :: "int set \<Rightarrow> int list \<Rightarrow> bool" where
  "closed_in R p \<longleftrightarrow> (\<forall>a\<in>R. 0 \<le> a \<and> a < int (length p) \<and> p ! nat a \<in> R)"

text \<open>The two roots after the swap of lines 65 to 67: \<open>link_lo\<close> is attached under \<open>link_hi\<close>.\<close>

definition link_hi :: "32 word list \<Rightarrow> int \<Rightarrow> int \<Rightarrow> int" where
  "link_hi r ra rb = (if sint (r ! nat ra) < sint (r ! nat rb) then rb else ra)"

definition link_lo :: "32 word list \<Rightarrow> int \<Rightarrow> int \<Rightarrow> int" where
  "link_lo r ra rb = (if sint (r ! nat ra) < sint (r ! nat rb) then ra else rb)"

subsection \<open>Connectivity by the unions made so far\<close>

text \<open>The naive closure: the reflexive, symmetric and transitive closure of the pairs that were
  given to \<^verbatim>\<open>union_set\<close>.\<close>

definition conn :: "(int \<times> int) list \<Rightarrow> (int \<times> int) set" where
  "conn U = (set U \<union> (set U)\<inverse>)\<^sup>*"

text \<open>The invariant of the disjoint sets over the vertices \<open>R\<close> after the unions \<open>U\<close>.\<close>

definition dsu_inv :: "int set \<Rightarrow> (int \<times> int) list \<Rightarrow> int list \<Rightarrow> 32 word list \<Rightarrow> bool" where
  "dsu_inv R U p r \<longleftrightarrow>
     finite R \<and> closed_in R p \<and> length r = length p \<and> (\<forall>a\<in>R. \<exists>s. root_of p a s) \<and>
     (\<forall>x\<in>R. \<forall>y\<in>R. same_set p x y \<longleftrightarrow> (x, y) \<in> conn U)"

text \<open>The states of the parent and rank vectors that \<^verbatim>\<open>make_set\<close> followed by calls of
  \<^verbatim>\<open>union_set\<close> on registered vertices can reach, with the list of the pairs united.\<close>

inductive dsu_reach :: "graph \<Rightarrow> (int \<times> int) list \<Rightarrow> int list \<Rightarrow> 32 word list \<Rightarrow> bool"
  for g :: graph where
  init: "make_set g = Some g' \<Longrightarrow> dsu_reach g [] (parent g') (rnk g')"
| union: "dsu_reach g us p r \<Longrightarrow> a \<in> registered g \<Longrightarrow> b \<in> registered g \<Longrightarrow>
          union_set p r a b = Some (u, p', r') \<Longrightarrow> dsu_reach g (us @ [(a, b)]) p' r'"

text \<open>A list of edges has no cycle when no edge joins two vertices that the other edges of the
  list already connect.\<close>

definition acyclic_pairs :: "(int \<times> int) list \<Rightarrow> bool" where
  "acyclic_pairs F \<longleftrightarrow> (\<forall>k<length F. F ! k \<notin> conn (take k F @ drop (Suc k) F))"

subsection \<open>The decisions of a run\<close>

text \<open>The calls of \<^verbatim>\<open>union_set\<close> that both loops make, with one decision per edge:
  \<open>True\<close> when the edge was united, \<open>False\<close> when it was not (its ends were connected
  already, or a name was not found).\<close>

fun dsu_run ::
  "graph \<Rightarrow> edge list \<Rightarrow> int list \<Rightarrow> 32 word list \<Rightarrow> (bool list \<times> int list \<times> 32 word list) option" where
  "dsu_run g [] p r = Some ([], p, r)"
| "dsu_run g (e # es) p r =
     (if resolvable g e then
        (case union_set p r (getIndex g (src e)) (getIndex g (dst e)) of
           None \<Rightarrow> None
         | Some (u, p', r') \<Rightarrow> map_option (\<lambda>(ds, q). (u # ds, q)) (dsu_run g es p' r'))
      else map_option (\<lambda>(ds, q). (False # ds, q)) (dsu_run g es p r))"

definition accepted_of :: "edge list \<Rightarrow> bool list \<Rightarrow> edge list" where
  "accepted_of es ds = map fst (filter snd (zip es ds))"

text \<open>A trace that fits the edges: one step per edge, each step extending the lists and the
  weight of the step before it (\<open>m\<close>, \<open>r\<close>, \<open>t\<close> at the start) by its own edge.\<close>

fun trace_ok ::
  "graph \<Rightarrow> string list \<Rightarrow> string list \<Rightarrow> 32 word \<Rightarrow> edge list \<Rightarrow> step list \<Rightarrow> bool" where
  "trace_ok g m r t [] ss = (ss = [])"
| "trace_ok g m r t (e # es) [] = False"
| "trace_ok g m r t (e # es) (s # ss) =
     (consideredEdgeId s = edge_id e \<and> (accepted s \<longrightarrow> resolvable g e) \<and>
      (if accepted s
       then mstEdgeIds s = m @ [edge_id e] \<and> rejectedEdgeIds s = r \<and> totalWeight s = t + weight e
       else mstEdgeIds s = m \<and> rejectedEdgeIds s = r @ [edge_id e] \<and> totalWeight s = t) \<and>
      trace_ok g (mstEdgeIds s) (rejectedEdgeIds s) (totalWeight s) es ss)"

subsection \<open>The returned text\<close>

text \<open>
  The text of a trace written out: the strings of lines 147 to 196 around the values they
  enclose, the elements of a list separated by commas.  \<open>decimal_int\<close> reads a decimal
  numeral, with or without a minus sign, back as a number.
\<close>

fun comma_join :: "string list \<Rightarrow> string" where
  "comma_join [] = []"
| "comma_join [x] = x"
| "comma_join (x # y # ys) = x @ '','' @ comma_join (y # ys)"

definition decimal_nat :: "string \<Rightarrow> nat" where
  "decimal_nat s = foldl (\<lambda>a c. 10 * a + (of_char c - 48)) 0 s"

definition decimal_int :: "string \<Rightarrow> int" where
  "decimal_int s =
     (if s \<noteq> [] \<and> hd s = CHR ''-'' then - int (decimal_nat (tl s)) else int (decimal_nat s))"

abbreviation id_text :: "string \<Rightarrow> string" where
  \<open>id_text x \<equiv> ''"'' @ json_escape x @ ''"''\<close>

abbreviation step_text :: "step \<Rightarrow> string" where
  \<open>step_text s \<equiv>
     ''{"consideredEdgeId":"'' @ json_escape (consideredEdgeId s) @
     ''","action":"'' @ (if accepted s then ''accept'' else ''reject'') @
     ''","reason":"'' @ (if accepted s then ''ok'' else ''cycle'') @
     ''","totalWeight":'' @ show_int (sint (totalWeight s)) @
     '',"mstEdgeIds":['' @ comma_join (map id_text (mstEdgeIds s)) @
     ''],"rejectedEdgeIds":['' @ comma_join (map id_text (rejectedEdgeIds s)) @ '']}''\<close>

abbreviation trace_text :: "step list \<Rightarrow> 32 word \<Rightarrow> string" where
  \<open>trace_text out tot \<equiv>
     ''{"steps":['' @ comma_join (map step_text out) @
     ''],"mstWeight":'' @ show_int (sint tot) @ ''}''\<close>

subsection \<open>Example engines\<close>

text \<open>One vertex and one edge whose destination was never registered.\<close>

definition ex_unknown :: graph where
  "ex_unknown = addEdge (addVertex (Graph 1 1) ''A'' 0) ''e1'' 7 ''A'' ''Z''"

text \<open>Two vertices and two parallel edges of different weight.\<close>

definition ex_two :: graph where
  "ex_two = addEdge (addEdge (addVertex (addVertex (Graph 2 2) ''A'' 0) ''B'' 1)
              ''e1'' 1 ''A'' ''B'') ''e2'' 2 ''B'' ''A''"

text \<open>Two vertices and no edge.\<close>

definition ex_pair :: graph where
  "ex_pair = addVertex (addVertex (Graph 2 0) ''A'' 0) ''B'' 1"

text \<open>Two parallel edges of equal weight, and the engine after one and after two runs.\<close>

definition ex_tie :: graph where
  "ex_tie = addEdge (addEdge (addVertex (addVertex (Graph 2 2) ''A'' 0) ''B'' 1)
              ''e1'' 5 ''A'' ''B'') ''e2'' 5 ''A'' ''B''"

definition ex_tie_once :: graph where
  "ex_tie_once =
     \<lparr>numVertices = 2, numEdges = 2, parent = [0, 0], rnk = [1, 0],
      vertices = [(''A'', 0), (''B'', 1)],
      edges = [\<lparr>edge_id = ''e2'', weight = 5, src = ''A'', dst = ''B''\<rparr>,
               \<lparr>edge_id = ''e1'', weight = 5, src = ''A'', dst = ''B''\<rparr>]\<rparr>"

definition ex_tie_twice :: graph where
  "ex_tie_twice =
     \<lparr>numVertices = 2, numEdges = 2, parent = [0, 0], rnk = [1, 0],
      vertices = [(''A'', 0), (''B'', 1)],
      edges = [\<lparr>edge_id = ''e1'', weight = 5, src = ''A'', dst = ''B''\<rparr>,
               \<lparr>edge_id = ''e2'', weight = 5, src = ''A'', dst = ''B''\<rparr>]\<rparr>"

text \<open>The trace and the final engine of the first two examples.\<close>

definition ex_unknown_trace :: "step list" where
  "ex_unknown_trace =
     [\<lparr>consideredEdgeId = ''e1'', accepted = False, totalWeight = 0, mstEdgeIds = [],
       rejectedEdgeIds = [''e1'']\<rparr>]"

definition ex_unknown_final :: graph where
  "ex_unknown_final =
     \<lparr>numVertices = 1, numEdges = 1, parent = [0], rnk = [0], vertices = [(''A'', 0)],
      edges = [\<lparr>edge_id = ''e1'', weight = 7, src = ''A'', dst = ''Z''\<rparr>]\<rparr>"

definition ex_two_trace :: "step list" where
  "ex_two_trace =
     [\<lparr>consideredEdgeId = ''e1'', accepted = True, totalWeight = 1, mstEdgeIds = [''e1''],
       rejectedEdgeIds = []\<rparr>,
      \<lparr>consideredEdgeId = ''e2'', accepted = False, totalWeight = 1, mstEdgeIds = [''e1''],
       rejectedEdgeIds = [''e2'']\<rparr>]"

definition ex_two_final :: graph where
  "ex_two_final =
     \<lparr>numVertices = 2, numEdges = 2, parent = [0, 0], rnk = [1, 0],
      vertices = [(''A'', 0), (''B'', 1)],
      edges = [\<lparr>edge_id = ''e1'', weight = 1, src = ''A'', dst = ''B''\<rparr>,
               \<lparr>edge_id = ''e2'', weight = 2, src = ''B'', dst = ''A''\<rparr>]\<rparr>"

section \<open>The edge sort\<close>

lemma mset_mergeEdges: "mset (mergeEdges xs ys) = mset xs + mset ys"
  by (induction xs ys rule: mergeEdges.induct) auto

lemma set_mergeEdges: "set (mergeEdges xs ys) = set xs \<union> set ys"
  by (induction xs ys rule: mergeEdges.induct) auto

lemma sorted_mergeEdges:
  "sorted (map wkey xs) \<Longrightarrow> sorted (map wkey ys) \<Longrightarrow> sorted (map wkey (mergeEdges xs ys))"
  by (induction xs ys rule: mergeEdges.induct) (auto simp: set_mergeEdges wkey_def)

text \<open>On equal weights the merge takes the head of the right half: in the result the
  edges of one weight from \<open>ys\<close> come before those from \<open>xs\<close>.\<close>

lemma filter_mergeEdges:
  "sorted (map wkey xs) \<Longrightarrow> sorted (map wkey ys) \<Longrightarrow>
   filter (\<lambda>e. weight e = w) (mergeEdges xs ys) =
     filter (\<lambda>e. weight e = w) ys @ filter (\<lambda>e. weight e = w) xs"
proof (induction xs ys rule: mergeEdges.induct)
  case (1 x xs y ys)
  show ?case
  proof (cases "sint (weight x) < sint (weight y)")
    case True
    have "filter (\<lambda>e. weight e = w) (y # ys) = []" if "weight x = w"
      using that True 1(4) by (auto simp: filter_empty_conv wkey_def)
    with 1 True show ?thesis by auto
  next
    case False
    with 1 show ?thesis by auto
  qed
qed simp_all

lemma segment_single: "low < length v \<Longrightarrow> segment v low low = [v ! low]"
  by (simp add: segment_def take_Suc_conv_app_nth Cons_nth_drop_Suc[symmetric])

lemma segment_split:
  assumes "low \<le> mid" "mid < hi"
  shows "segment v low hi = segment v low mid @ segment v (Suc mid) hi"
proof -
  have "Suc hi - low = (Suc mid - low) + (Suc hi - Suc mid)"
    using assms by arith
  then have "take (Suc hi - low) (drop low v) =
      take (Suc mid - low) (drop low v) @
      take (Suc hi - Suc mid) (drop (Suc mid - low) (drop low v))"
    by (simp only: take_add)
  moreover have "Suc mid - low + low = Suc mid"
    using assms by arith
  ultimately show ?thesis
    by (simp add: segment_def)
qed

lemma segment_all: "v \<noteq> [] \<Longrightarrow> segment v 0 (length v - 1) = v"
  by (simp add: segment_def)

lemma sortEdges_props:
  "low \<le> hi \<Longrightarrow> hi < length v \<Longrightarrow>
   \<exists>es. sortEdges v low hi = Some es \<and> mset es = mset (segment v low hi) \<and>
        sorted (map wkey es) \<and>
        (\<forall>w. filter (\<lambda>e. weight e = w) es =
              rev (filter (\<lambda>e. weight e = w) (segment v low hi)))"
proof (induction v low hi rule: sortEdges.induct)
  case (1 v low hi)
  show ?case
  proof (cases "low = hi")
    case True
    with 1(4) show ?thesis
      by (subst sortEdges.simps) (simp add: segment_single)
  next
    case False
    let ?mid = "(low + hi) div 2"
    from False 1(3) have lt: "low < hi" by simp
    then have m: "low \<le> ?mid" "?mid < hi" "?mid < length v" "?mid + 1 \<le> hi"
      using 1(4) by auto
    from 1(1)[OF False _ m(1) m(3)] lt obtain lower where
      L: "sortEdges v low ?mid = Some lower" "mset lower = mset (segment v low ?mid)"
         "sorted (map wkey lower)"
         "\<And>w. filter (\<lambda>e. weight e = w) lower =
               rev (filter (\<lambda>e. weight e = w) (segment v low ?mid))"
      by auto
    from 1(2)[OF False _ L(1) m(4) 1(4)] lt obtain upper where
      U: "sortEdges v (?mid + 1) hi = Some upper" "mset upper = mset (segment v (?mid + 1) hi)"
         "sorted (map wkey upper)"
         "\<And>w. filter (\<lambda>e. weight e = w) upper =
               rev (filter (\<lambda>e. weight e = w) (segment v (?mid + 1) hi))"
      by auto
    have sp: "segment v low hi = segment v low ?mid @ segment v (?mid + 1) hi"
      using segment_split[OF m(1) m(2)] by simp
    have "sortEdges v low hi = Some (mergeEdges lower upper)"
      using False lt L(1) U(1) by (subst sortEdges.simps) simp
    then show ?thesis
      using L U sp by (simp add: mset_mergeEdges sorted_mergeEdges filter_mergeEdges)
  qed
qed

lemma sort_g_props:
  "\<exists>es. sort_g g = Some (g\<lparr>edges := es\<rparr>) \<and> mset es = mset (edges g) \<and>
        sorted (map wkey es) \<and>
        (\<forall>w. filter (\<lambda>e. weight e = w) es = rev (filter (\<lambda>e. weight e = w) (edges g)))"
proof (cases "edges g = []")
  case True
  then show ?thesis by (simp add: sort_g_def)
next
  case False
  then have "0 \<le> length (edges g) - 1" "length (edges g) - 1 < length (edges g)"
    by simp_all
  from sortEdges_props[OF this] obtain es where
    "sortEdges (edges g) 0 (length (edges g) - 1) = Some es" "mset es = mset (edges g)"
    "sorted (map wkey es)"
    "\<forall>w. filter (\<lambda>e. weight e = w) es = rev (filter (\<lambda>e. weight e = w) (edges g))"
    unfolding segment_all[OF False] by blast
  with False show ?thesis
    by (intro exI[of _ es]) (simp add: sort_g_def)
qed

text \<open>
  C2, as the code has it.  \<^verbatim>\<open>sort\<close> always returns; the edges it leaves are the edges it
  found, in ascending order of weight, and the edges of any one weight stand in the
  reverse of their input order: the merge takes the head of the right half when the two
  heads have equal weight.
\<close>

theorem sort_ascending_ties_reversed:
  "\<exists>es. sort_g g = Some (g\<lparr>edges := es\<rparr>) \<and> mset es = mset (edges g) \<and>
        sorted (map (\<lambda>e. sint (weight e)) es) \<and>
        (\<forall>w. filter (\<lambda>e. weight e = w) es = rev (filter (\<lambda>e. weight e = w) (edges g)))"
  using sort_g_props[of g] by (simp add: wkey_def[abs_def])

text \<open>
  C2 as stated fails on the two edges of equal weight of the specification's own example:
  \<open>eA\<close> is added before \<open>eB\<close>, and the sorted list has \<open>eB\<close> first.
\<close>

theorem sort_not_stable:
  "sort_g (addEdge (addEdge (Graph 3 2) ''eA'' 5 ''X'' ''Y'') ''eB'' 5 ''Y'' ''Z'') =
     Some \<lparr>numVertices = 3, numEdges = 2, parent = [], rnk = [], vertices = [],
            edges = [\<lparr>edge_id = ''eB'', weight = 5, src = ''Y'', dst = ''Z''\<rparr>,
                     \<lparr>edge_id = ''eA'', weight = 5, src = ''X'', dst = ''Y''\<rparr>]\<rparr>"
  by (simp add: sort_g_def addEdge_def Graph_def sortEdges.simps)

section \<open>The vertex map\<close>

lemma map_of_insort_key:
  "map_of kvs k = None \<Longrightarrow> map_of (insort_key fst (k, v) kvs) = (map_of kvs)(k \<mapsto> v)"
proof (induction kvs)
  case Nil
  then show ?case by simp
next
  case (Cons x kvs)
  then show ?case by (cases x) (auto simp: fun_eq_iff split: if_splits)
qed

text \<open>
  C4, as the code has it.  The first registration of a name wins: a second \<^verbatim>\<open>addVertex\<close>
  with the same name leaves the engine as it is, and \<^verbatim>\<open>getIndex\<close> goes on returning the
  index the name had before (the one of the first call when the name was new).
\<close>

theorem addVertex_first_registration_wins:
  "addVertex (addVertex g name i) name j = addVertex g name i \<and>
   getIndex (addVertex (addVertex g name i) name j) name =
     (case map_of (vertices g) name of None \<Rightarrow> i | Some k \<Rightarrow> k)"
  by (simp add: addVertex_def getIndex_def map_of_insort_key split: option.splits)

text \<open>
  C4 as stated fails: after registering \<open>A\<close> with index 0 and then with index 1,
  \<^verbatim>\<open>getIndex\<close> returns 0, not the index of the most recent call.
\<close>

theorem addVertex_last_does_not_win:
  "getIndex (addVertex (addVertex (Graph 2 0) ''A'' 0) ''A'' 1) ''A'' = 0"
  by (simp add: getIndex_def addVertex_def Graph_def)

section \<open>String escaping\<close>

lemma json_escape_append: "json_escape (s @ t) = json_escape s @ json_escape t"
  by (induction s) simp_all

text \<open>
  C9.  \<^verbatim>\<open>json_escape\<close> works character by character; it writes backslash and quote for
  a double quote, two backslashes for a backslash, backslash and \<open>n\<close>, \<open>r\<close>, \<open>t\<close> for
  newline, carriage return and tab, and every other character as it is.
\<close>

theorem json_escape_five_characters:
  "json_escape (s @ t) = json_escape s @ json_escape t \<and>
   json_escape [CHR 0x22] = [CHR 0x5C, CHR 0x22] \<and>
   json_escape [CHR 0x5C] = [CHR 0x5C, CHR 0x5C] \<and>
   json_escape [CHR 0x0A] = [CHR 0x5C, CHR ''n''] \<and>
   json_escape [CHR 0x0D] = [CHR 0x5C, CHR ''r''] \<and>
   json_escape [CHR 0x09] = [CHR 0x5C, CHR ''t''] \<and>
   (c \<notin> {CHR 0x22, CHR 0x5C, CHR 0x0A, CHR 0x0D, CHR 0x09} \<longrightarrow> json_escape [c] = [c])"
  by (simp add: json_escape_append)

theorem json_escape_five_characters_witness:
  "CHR ''e'' \<notin> {CHR 0x22, CHR 0x5C, CHR 0x0A, CHR 0x0D, CHR 0x09} \<and>
   json_escape [CHR ''e''] = [CHR ''e''] \<and>
   json_escape (''a'' @ [CHR 0x22]) = json_escape ''a'' @ json_escape [CHR 0x22]"
  using json_escape_five_characters[of "''a''" "[CHR 0x22]" "CHR ''e''"] by simp

section \<open>Parent forests, find_set and union_set\<close>

lemma nth_upd_int:
  "0 \<le> a \<Longrightarrow> 0 \<le> x \<Longrightarrow> x < int (length p) \<Longrightarrow>
   p[nat a := v] ! nat x = (if x = a then v else p ! nat x)"
  by (auto simp: nth_list_update nat_eq_iff)

lemma root_of_range: "root_of p a r \<Longrightarrow> 0 \<le> a \<and> a < int (length p)"
  by (induction rule: root_of.induct) auto

lemma root_of_is_root: "root_of p a r \<Longrightarrow> 0 \<le> r \<and> r < int (length p) \<and> p ! nat r = r"
  by (induction rule: root_of.induct) auto

lemma root_of_det: "root_of p a r \<Longrightarrow> root_of p a r' \<Longrightarrow> r' = r"
proof (induction arbitrary: r' rule: root_of.induct)
  case (root a)
  from root.prems root.hyps show ?case by (cases rule: root_of.cases) auto
next
  case (step a r)
  note IH = step.IH and hyps = step.hyps
  from step.prems show ?case
  proof (cases rule: root_of.cases)
    case root
    with hyps show ?thesis by simp
  next
    case step
    then show ?thesis using IH by blast
  qed
qed

lemma root_of_closed: "root_of p a r \<Longrightarrow> closed_in R p \<Longrightarrow> a \<in> R \<Longrightarrow> r \<in> R"
  by (induction rule: root_of.induct) (auto simp: closed_in_def)

lemma root_of_compress:
  assumes ar: "root_of p a r" and xs: "root_of p x s"
  shows "root_of (p[nat a := r]) x s"
  using xs
proof (induction rule: root_of.induct)
  case (root x)
  from root_of_range[OF ar] have a0: "0 \<le> a" by simp
  show ?case
  proof (cases "x = a")
    case True
    from ar True have "root_of p x r" by simp
    from root_of_det[OF root_of.root[OF root.hyps] this] True have "r = a" by simp
    with True root a0 show ?thesis
      by (intro root_of.root) (simp_all add: nth_upd_int)
  next
    case False
    with root a0 show ?thesis
      by (intro root_of.root) (simp_all add: nth_upd_int)
  qed
next
  case (step x s)
  from root_of_range[OF ar] have a0: "0 \<le> a" by simp
  show ?case
  proof (cases "x = a")
    case True
    have "root_of p a s" using root_of.step[OF step.hyps] True by simp
    from root_of_det[OF ar this] have sr: "s = r" .
    from root_of_is_root[OF ar] have rr: "0 \<le> r" "r < int (length p)" "p ! nat r = r"
      by auto
    from rr step.hyps True have ne: "r \<noteq> a" by auto
    have "root_of (p[nat a := r]) r r"
      using rr ne a0 by (intro root_of.root) (simp_all add: nth_upd_int)
    then show ?thesis using step.hyps True sr ne a0
      by - (rule root_of.step, simp_all add: nth_upd_int)
  next
    case False
    with step a0 show ?thesis
      by - (rule root_of.step, simp_all add: nth_upd_int)
  qed
qed

lemma root_of_link:
  assumes a: "0 \<le> a'" "a' < int (length p)" "p ! nat a' = a'"
    and b: "0 \<le> b'" "b' < int (length p)" "p ! nat b' = b'" and ne: "a' \<noteq> b'"
    and xs: "root_of p x s"
  shows "root_of (p[nat b' := a']) x (if s = b' then a' else s)"
  using xs
proof (induction rule: root_of.induct)
  case (root x)
  have ra: "root_of (p[nat b' := a']) a' a'"
    using a b ne by (intro root_of.root) (simp_all add: nth_upd_int)
  show ?case
  proof (cases "x = b'")
    case True
    have "root_of (p[nat b' := a']) b' a'"
      using ra a b ne by - (rule root_of.step, simp_all add: nth_upd_int)
    with True show ?thesis by simp
  next
    case False
    have "root_of (p[nat b' := a']) x x"
      using False root b by (intro root_of.root) (simp_all add: nth_upd_int)
    with False show ?thesis by simp
  qed
next
  case (step x s)
  from step.hyps b have "x \<noteq> b'" by auto
  with step b show ?case
    by - (rule root_of.step, simp_all add: nth_upd_int)
qed

lemma find_set_root:
  assumes "root_of p a r"
  shows "\<exists>p'. find_set p a = Some (r, p') \<and> length p' = length p \<and>
              (\<forall>x s. root_of p x s \<longrightarrow> root_of p' x s) \<and>
              (\<forall>R. closed_in R p \<and> a \<in> R \<longrightarrow>
                   closed_in R p' \<and> (\<forall>i. int i \<notin> R \<longrightarrow> p' ! i = p ! i))"
  using assms
proof (induction rule: root_of.induct)
  case (root a)
  then have "find_set p a = Some (a, p)" by (subst find_set.simps) simp
  then show ?case by simp
next
  case (step a r)
  from step.IH obtain p1 where p1:
    "find_set p (p ! nat a) = Some (r, p1) \<and> length p1 = length p \<and>
     (\<forall>x s. root_of p x s \<longrightarrow> root_of p1 x s) \<and>
     (\<forall>R. closed_in R p \<and> p ! nat a \<in> R \<longrightarrow>
          closed_in R p1 \<and> (\<forall>i. int i \<notin> R \<longrightarrow> p1 ! i = p ! i))" ..
  from p1 have f: "find_set p (p ! nat a) = Some (r, p1)" and l: "length p1 = length p"
    by simp_all
  from p1 have pres: "root_of p1 x s" if "root_of p x s" for x s
    using that by simp
  from p1 have fr: "closed_in R p1 \<and> (\<forall>i. int i \<notin> R \<longrightarrow> p1 ! i = p ! i)"
    if "closed_in R p" "p ! nat a \<in> R" for R
    using that by simp
  have ar: "root_of p a r" using step.hyps by (rule root_of.step)
  have fs: "find_set p a = Some (r, p1[nat a := r])"
    using step.hyps f by (subst find_set.simps) simp
  have 1: "\<forall>x s. root_of p x s \<longrightarrow> root_of (p1[nat a := r]) x s"
    using root_of_compress[OF pres[OF ar]] pres by blast
  have 2: "closed_in R (p1[nat a := r]) \<and> (\<forall>i. int i \<notin> R \<longrightarrow> p1[nat a := r] ! i = p ! i)"
    if c: "closed_in R p" and aR: "a \<in> R" for R
  proof -
    from c aR have "p ! nat a \<in> R" by (simp add: closed_in_def)
    from fr[OF c this] have c1: "closed_in R p1" and f1: "\<forall>i. int i \<notin> R \<longrightarrow> p1 ! i = p ! i"
      by auto
    have rR: "r \<in> R" using root_of_closed[OF ar c aR] .
    have "closed_in R (p1[nat a := r])"
      using c1 rR step.hyps(1) unfolding closed_in_def by (simp add: nth_upd_int)
    moreover have "p1[nat a := r] ! i = p ! i" if "int i \<notin> R" for i
    proof -
      from that aR step.hyps(1) have "i \<noteq> nat a" by auto
      with f1 that show ?thesis by simp
    qed
    ultimately show ?thesis by simp
  qed
  have 3: "length (p1[nat a := r]) = length p" using l by simp
  from fs 3 1 2 show ?case by blast
qed

lemma find_set_root_obtain:
  assumes "root_of p a r"
  obtains p' where "find_set p a = Some (r, p')" "length p' = length p"
    "\<And>x s. root_of p x s \<Longrightarrow> root_of p' x s"
    "\<And>R. closed_in R p \<Longrightarrow> a \<in> R \<Longrightarrow> closed_in R p'"
    "\<And>R i. closed_in R p \<Longrightarrow> a \<in> R \<Longrightarrow> int i \<notin> R \<Longrightarrow> p' ! i = p ! i"
proof -
  from find_set_root[OF assms] obtain p' where p':
    "find_set p a = Some (r, p') \<and> length p' = length p \<and>
              (\<forall>x s. root_of p x s \<longrightarrow> root_of p' x s) \<and>
              (\<forall>R. closed_in R p \<and> a \<in> R \<longrightarrow>
                   closed_in R p' \<and> (\<forall>i. int i \<notin> R \<longrightarrow> p' ! i = p ! i))" ..
  show thesis
  proof (rule that[of p'])
    show "find_set p a = Some (r, p')" "length p' = length p" using p' by simp_all
    show "root_of p' x s" if "root_of p x s" for x s using p' that by simp
    show "closed_in R p'" if "closed_in R p" "a \<in> R" for R using p' that by simp
    show "p' ! i = p ! i" if "closed_in R p" "a \<in> R" "int i \<notin> R" for R i
      using p' that by simp
  qed
qed

lemma union_set_props:
  assumes c: "closed_in R p" and aR: "a \<in> R" and bR: "b \<in> R" and len: "length r = length p"
    and ra: "root_of p a ra" and rb: "root_of p b rb"
  shows "\<exists>p' r'. union_set p r a b = Some (ra \<noteq> rb, p', r') \<and>
           length p' = length p \<and> length r' = length r \<and> closed_in R p' \<and>
           (\<forall>i. int i \<notin> R \<longrightarrow> p' ! i = p ! i \<and> r' ! i = r ! i) \<and>
           (ra = rb \<longrightarrow> r' = r \<and> (\<forall>x s. root_of p x s \<longrightarrow> root_of p' x s)) \<and>
           (ra \<noteq> rb \<longrightarrow>
              p' ! nat (link_lo r ra rb) = link_hi r ra rb \<and>
              r' = (if r ! nat ra = r ! nat rb
                    then r[nat (link_hi r ra rb) := r ! nat (link_hi r ra rb) + 1] else r) \<and>
              (\<forall>x s. root_of p x s \<longrightarrow>
                 root_of p' x (if s = link_lo r ra rb then link_hi r ra rb else s)))"
proof -
  from find_set_root_obtain[OF ra] obtain p1 where p1:
    "find_set p a = Some (ra, p1)" "length p1 = length p"
    "\<And>x s. root_of p x s \<Longrightarrow> root_of p1 x s"
    "\<And>R. closed_in R p \<Longrightarrow> a \<in> R \<Longrightarrow> closed_in R p1"
    "\<And>R i. closed_in R p \<Longrightarrow> a \<in> R \<Longrightarrow> int i \<notin> R \<Longrightarrow> p1 ! i = p ! i"
    by blast
  from find_set_root_obtain[OF p1(3)[OF rb]] obtain p2 where p2:
    "find_set p1 b = Some (rb, p2)" "length p2 = length p1"
    "\<And>x s. root_of p1 x s \<Longrightarrow> root_of p2 x s"
    "\<And>R. closed_in R p1 \<Longrightarrow> b \<in> R \<Longrightarrow> closed_in R p2"
    "\<And>R i. closed_in R p1 \<Longrightarrow> b \<in> R \<Longrightarrow> int i \<notin> R \<Longrightarrow> p2 ! i = p1 ! i"
    by blast
  have c1: "closed_in R p1" using p1(4)[OF c aR] .
  have c2: "closed_in R p2" using p2(4)[OF c1 bR] .
  have fr2: "p2 ! i = p ! i" if "int i \<notin> R" for i
    using p2(5)[OF c1 bR that] p1(5)[OF c aR that] by simp
  have pres2: "root_of p2 x s" if "root_of p x s" for x s
    using p2(3)[OF p1(3)[OF that]] .
  have l2: "length p2 = length p" using p1(2) p2(2) by simp
  show ?thesis
  proof (cases "ra = rb")
    case True
    have "union_set p r a b = Some (False, p2, r)"
      using p1(1) p2(1) True by (simp add: union_set_def)
    with True l2 c2 fr2 pres2 show ?thesis by auto
  next
    case False
    let ?hi = "link_hi r ra rb" and ?lo = "link_lo r ra rb"
    have raR: "ra \<in> R" using root_of_closed[OF ra c aR] .
    have rbR: "rb \<in> R" using root_of_closed[OF rb c bR] .
    from root_of_is_root[OF pres2[OF ra]] have A: "0 \<le> ra" "ra < int (length p2)" "p2 ! nat ra = ra"
      by auto
    from root_of_is_root[OF pres2[OF rb]] have B: "0 \<le> rb" "rb < int (length p2)" "p2 ! nat rb = rb"
      by auto
    have hl: "?hi \<in> R" "?lo \<in> R" "?hi \<noteq> ?lo" "0 \<le> ?hi" "?hi < int (length p2)" "p2 ! nat ?hi = ?hi"
      "0 \<le> ?lo" "?lo < int (length p2)" "p2 ! nat ?lo = ?lo"
      using raR rbR False A B by (auto simp: link_hi_def link_lo_def)
    have tie: "(r ! nat ?hi = r ! nat ?lo) = (r ! nat ra = r ! nat rb)"
      by (auto simp: link_hi_def link_lo_def)
    let ?p3 = "p2[nat ?lo := ?hi]"
    let ?r' = "if r ! nat ra = r ! nat rb then r[nat ?hi := r ! nat ?hi + 1] else r"
    have nl: "nat ra < length r" "nat rb < length r"
      using A B len l2 by (simp_all add: nat_less_iff)
    have u: "union_set p r a b = Some (True, ?p3, ?r')"
      using p1(1) p2(1) False nl
      by (simp add: union_set_def link_hi_def link_lo_def)
    have cl: "closed_in R ?p3"
      using c2 hl unfolding closed_in_def by (simp add: nth_upd_int)
    have fr: "?p3 ! i = p ! i \<and> ?r' ! i = r ! i" if "int i \<notin> R" for i
    proof -
      from that hl have "i \<noteq> nat ?lo" "i \<noteq> nat ?hi" by auto
      with fr2[OF that] show ?thesis by simp
    qed
    have lk: "root_of ?p3 x (if s = ?lo then ?hi else s)" if "root_of p x s" for x s
      using root_of_link[OF hl(4,5,6) hl(7,8,9) hl(3) pres2[OF that]] .
    have v: "?p3 ! nat ?lo = ?hi" using hl by simp
    from u l2 cl fr lk v False show ?thesis by auto
  qed
qed

section \<open>Connectivity\<close>

lemma conn_refl: "(x, x) \<in> conn U"
  by (simp add: conn_def)

lemma conn_sym: "(x, y) \<in> conn U \<Longrightarrow> (y, x) \<in> conn U"
proof -
  have "sym (set U \<union> (set U)\<inverse>)" by (auto simp: sym_def)
  then have "sym (conn U)" unfolding conn_def by (rule sym_rtrancl)
  then show "(x, y) \<in> conn U \<Longrightarrow> (y, x) \<in> conn U" by (rule symD)
qed

lemma conn_trans: "(x, y) \<in> conn U \<Longrightarrow> (y, z) \<in> conn U \<Longrightarrow> (x, z) \<in> conn U"
  unfolding conn_def by (rule rtrancl_trans)

lemma conn_mono: "set U \<subseteq> set V \<Longrightarrow> conn U \<subseteq> conn V"
  unfolding conn_def by (intro rtrancl_mono) auto

lemma conn_edge: "(a, b) \<in> set U \<Longrightarrow> (a, b) \<in> conn U"
  unfolding conn_def by auto

lemma conn_snoc:
  "(x, y) \<in> conn (U @ [(a, b)]) \<longleftrightarrow>
     (x, y) \<in> conn U \<or> ((x, a) \<in> conn U \<and> (b, y) \<in> conn U) \<or>
     ((x, b) \<in> conn U \<and> (a, y) \<in> conn U)" (is "?L \<longleftrightarrow> ?P y")
proof
  assume ?L
  then have "(x, y) \<in> (set (U @ [(a, b)]) \<union> (set (U @ [(a, b)]))\<inverse>)\<^sup>*"
    by (simp add: conn_def)
  then show "?P y"
  proof (induction rule: rtrancl_induct)
    case base
    show ?case by (simp add: conn_refl)
  next
    case (step y z)
    from step.hyps(2) consider "(y, z) \<in> conn U" | "y = a \<and> z = b" | "y = b \<and> z = a"
      by (auto simp: conn_edge intro: conn_sym[OF conn_edge])
    then show ?case
    proof cases
      case 1
      with step.IH show ?thesis by (meson conn_trans)
    next
      case 2
      with step.IH show ?thesis by (meson conn_trans conn_refl conn_sym)
    next
      case 3
      with step.IH show ?thesis by (meson conn_trans conn_refl conn_sym)
    qed
  qed
next
  have m: "conn U \<subseteq> conn (U @ [(a, b)])" by (rule conn_mono) auto
  have e: "(a, b) \<in> conn (U @ [(a, b)])" by (rule conn_edge) simp
  assume "?P y"
  then show ?L
    using m e by (meson conn_trans conn_sym subsetD)
qed

lemma same_set_iff:
  "root_of p x sx \<Longrightarrow> root_of p y sy \<Longrightarrow> same_set p x y \<longleftrightarrow> sx = sy"
  unfolding same_set_def using root_of_det by blast

lemma roots_image:
  assumes ex: "\<forall>a\<in>R. \<exists>s. root_of p a s"
    and mv: "\<And>x s. root_of p x s \<Longrightarrow> root_of p' x (f s)"
  shows "roots R p' = f ` roots R p"
proof (rule set_eqI)
  fix t
  show "t \<in> roots R p' \<longleftrightarrow> t \<in> f ` roots R p"
  proof
    assume "t \<in> roots R p'"
    then obtain x where x: "x \<in> R" "root_of p' x t" by (auto simp: roots_def)
    from ex x(1) obtain s where s: "root_of p x s" by blast
    from root_of_det[OF mv[OF s] x(2)] have "t = f s" .
    with s x(1) show "t \<in> f ` roots R p" by (auto simp: roots_def)
  next
    assume "t \<in> f ` roots R p"
    then obtain s x where "t = f s" "x \<in> R" "root_of p x s" by (auto simp: roots_def)
    with mv show "t \<in> roots R p'" by (auto simp: roots_def)
  qed
qed

lemma finite_roots: "finite R \<Longrightarrow> closed_in R p \<Longrightarrow> finite (roots R p)"
proof -
  assume f: "finite R" and c: "closed_in R p"
  have "roots R p \<subseteq> R" using root_of_closed[OF _ c] by (auto simp: roots_def)
  then show ?thesis using f by (rule finite_subset)
qed

lemma union_step:
  assumes inv: "dsu_inv R U p r" and aR: "a \<in> R" and bR: "b \<in> R"
  shows "\<exists>p' r'. union_set p r a b = Some ((a, b) \<notin> conn U, p', r') \<and>
           dsu_inv R (U @ [(a, b)]) p' r' \<and>
           (\<forall>i. int i \<notin> R \<longrightarrow> p' ! i = p ! i \<and> r' ! i = r ! i) \<and>
           length p' = length p \<and>
           card (roots R p') + (if (a, b) \<notin> conn U then 1 else 0) = card (roots R p)"
proof -
  from inv have fin: "finite R" and c: "closed_in R p" and len: "length r = length p"
    and ex: "\<forall>a\<in>R. \<exists>s. root_of p a s"
    and cn: "\<And>x y. x \<in> R \<Longrightarrow> y \<in> R \<Longrightarrow> same_set p x y \<longleftrightarrow> (x, y) \<in> conn U"
    by (simp_all add: dsu_inv_def)
  from ex aR obtain ra where ra: "root_of p a ra" by blast
  from ex bR obtain rb where rb: "root_of p b rb" by blast
  have ab: "(a, b) \<in> conn U \<longleftrightarrow> ra = rb"
    using cn[OF aR bR] same_set_iff[OF ra rb] by simp
  let ?hi = "link_hi r ra rb" and ?lo = "link_lo r ra rb"
  define f where "f s = (if ra = rb then s else if s = ?lo then ?hi else s)" for s
  from union_set_props[OF c aR bR len ra rb] obtain p' r' where u:
    "union_set p r a b = Some (ra \<noteq> rb, p', r') \<and>
           length p' = length p \<and> length r' = length r \<and> closed_in R p' \<and>
           (\<forall>i. int i \<notin> R \<longrightarrow> p' ! i = p ! i \<and> r' ! i = r ! i) \<and>
           (ra = rb \<longrightarrow> r' = r \<and> (\<forall>x s. root_of p x s \<longrightarrow> root_of p' x s)) \<and>
           (ra \<noteq> rb \<longrightarrow>
              p' ! nat ?lo = ?hi \<and>
              r' = (if r ! nat ra = r ! nat rb
                    then r[nat ?hi := r ! nat ?hi + 1] else r) \<and>
              (\<forall>x s. root_of p x s \<longrightarrow>
                 root_of p' x (if s = ?lo then ?hi else s)))"
    by blast
  have mv: "root_of p' x (f s)" if "root_of p x s" for x s
    using u that by (cases "ra = rb") (simp_all add: f_def)
  have hl: "ra \<noteq> rb \<Longrightarrow> (?hi = ra \<and> ?lo = rb) \<or> (?hi = rb \<and> ?lo = ra)"
    by (simp add: link_hi_def link_lo_def)
  have feq: "f sx = f sy \<longleftrightarrow> sx = sy \<or> (sx = ra \<and> sy = rb) \<or> (sx = rb \<and> sy = ra)" for sx sy
    using hl by (cases "ra = rb") (auto simp: f_def)
  have ex': "\<forall>a\<in>R. \<exists>s. root_of p' a s"
    using ex mv by blast
  have cn': "same_set p' x y \<longleftrightarrow> (x, y) \<in> conn (U @ [(a, b)])" if x: "x \<in> R" and y: "y \<in> R" for x y
  proof -
    from ex x obtain sx where sx: "root_of p x sx" by blast
    from ex y obtain sy where sy: "root_of p y sy" by blast
    have 1: "same_set p' x y \<longleftrightarrow> f sx = f sy"
      using same_set_iff[OF mv[OF sx] mv[OF sy]] .
    have 2: "(x, y) \<in> conn U \<longleftrightarrow> sx = sy" using cn[OF x y] same_set_iff[OF sx sy] by simp
    have 3: "(x, a) \<in> conn U \<longleftrightarrow> sx = ra" using cn[OF x aR] same_set_iff[OF sx ra] by simp
    have 4: "(x, b) \<in> conn U \<longleftrightarrow> sx = rb" using cn[OF x bR] same_set_iff[OF sx rb] by simp
    have 5: "(a, y) \<in> conn U \<longleftrightarrow> ra = sy" using cn[OF aR y] same_set_iff[OF ra sy] by simp
    have 6: "(b, y) \<in> conn U \<longleftrightarrow> rb = sy" using cn[OF bR y] same_set_iff[OF rb sy] by simp
    show ?thesis
      unfolding 1 feq conn_snoc 2 3 4 5 6 by auto
  qed
  have inv': "dsu_inv R (U @ [(a, b)]) p' r'"
    unfolding dsu_inv_def using fin u len ex' cn' by simp
  have ri: "roots R p' = f ` roots R p"
    using roots_image[OF ex mv] .
  have cardeq: "card (roots R p') + (if ra \<noteq> rb then 1 else 0) = card (roots R p)"
  proof (cases "ra = rb")
    case True
    then have "f ` roots R p = roots R p" by (simp add: f_def)
    with ri True show ?thesis by simp
  next
    case False
    have in_roots: "ra \<in> roots R p" "rb \<in> roots R p"
      using ra rb aR bR by (auto simp: roots_def)
    from hl[OF False] in_roots False have lo: "?lo \<in> roots R p" and hi: "?hi \<in> roots R p"
      and ne: "?hi \<noteq> ?lo" by auto
    have "f ` roots R p = roots R p - {?lo}"
      using lo hi ne False by (auto simp: f_def image_iff)
    then have "card (roots R p') = card (roots R p) - 1"
      using ri lo finite_roots[OF fin c] by simp
    moreover have "card (roots R p) > 0"
      using lo finite_roots[OF fin c] by (auto simp: card_gt_0_iff)
    ultimately show ?thesis using False by simp
  qed
  show ?thesis
    apply (rule exI[of _ p'], rule exI[of _ r'])
    using u inv' cardeq ab by simp
qed

section \<open>make_set\<close>

lemma make_set_loop_Some:
  "length r = length p \<Longrightarrow> \<forall>kv\<in>set kvs. 0 \<le> snd kv \<and> snd kv < int (length p) \<Longrightarrow>
   \<exists>p' r'. make_set_loop kvs p r = Some (p', r') \<and> length p' = length p \<and>
     length r' = length p \<and>
     (\<forall>i. p' ! i = (if int i \<in> snd ` set kvs then int i else p ! i)) \<and>
     (\<forall>i. r' ! i = (if int i \<in> snd ` set kvs then 0 else r ! i))"
proof (induction kvs arbitrary: p r)
  case Nil
  then show ?case by simp
next
  case (Cons kv kvs)
  let ?v = "snd kv"
  let ?p = "p[nat ?v := ?v]" and ?r = "r[nat ?v := 0]"
  from Cons.prems have v: "0 \<le> ?v" "?v < int (length p)" "?v < int (length r)" by simp_all
  have "length ?r = length ?p" using Cons.prems(1) by simp
  moreover have "\<forall>kv\<in>set kvs. 0 \<le> snd kv \<and> snd kv < int (length ?p)"
    using Cons.prems(2) by simp
  ultimately obtain p' r' where 1: "make_set_loop kvs ?p ?r = Some (p', r')"
    and 2: "length p' = length ?p" "length r' = length ?p"
    and 3: "\<And>i. p' ! i = (if int i \<in> snd ` set kvs then int i else ?p ! i)"
    and 4: "\<And>i. r' ! i = (if int i \<in> snd ` set kvs then 0 else ?r ! i)"
    using Cons.IH[of ?r ?p] by blast
  have 5: "p' ! i = (if int i \<in> snd ` set (kv # kvs) then int i else p ! i)" for i
    using 3[of i] v by (cases "i = nat ?v") (auto simp: nth_list_update)
  have 6: "r' ! i = (if int i \<in> snd ` set (kv # kvs) then 0 else r ! i)" for i
    using 4[of i] v by (cases "i = nat ?v") (auto simp: nth_list_update)
  have "make_set_loop (kv # kvs) p r = Some (p', r')"
    using 1 v by simp
  with 2 5 6 show ?case by simp
qed

lemma make_set_loop_range:
  "make_set_loop kvs p r = Some q \<Longrightarrow> length r = length p \<Longrightarrow>
   \<forall>kv\<in>set kvs. 0 \<le> snd kv \<and> snd kv < int (length p)"
proof (induction kvs arbitrary: p r)
  case Nil
  then show ?case by simp
next
  case (Cons kv kvs)
  from Cons.prems(1) have v: "0 \<le> snd kv \<and> snd kv < int (length p)"
    and rest: "make_set_loop kvs (p[nat (snd kv) := snd kv]) (r[nat (snd kv) := 0]) = Some q"
    by (simp_all add: Let_def split: if_splits)
  from Cons.IH[OF rest] Cons.prems(2) v show ?case by simp
qed

lemma length_resize: "length (resize xs n z) = n"
  by (simp add: resize_def)

lemma make_set_well_formed:
  "make_set g = Some g' \<Longrightarrow> well_formed g"
proof -
  assume a: "make_set g = Some g'"
  then have n: "0 \<le> numVertices g" by (simp add: make_set_def split: if_splits)
  from a n obtain q where
    "make_set_loop (vertices g) (resize (parent g) (nat (numVertices g)) 0)
       (resize (rnk g) (nat (numVertices g)) 0) = Some q"
    by (auto simp: make_set_def split: option.splits)
  from make_set_loop_range[OF this] n show ?thesis
    by (simp add: well_formed_def length_resize)
qed

lemma make_set_props:
  assumes "well_formed g"
  shows "\<exists>p' r'. make_set g = Some (g\<lparr>parent := p', rnk := r'\<rparr>) \<and>
           length p' = nat (numVertices g) \<and> length r' = nat (numVertices g) \<and>
           (\<forall>i. p' ! i = (if int i \<in> registered g then int i
                          else resize (parent g) (nat (numVertices g)) 0 ! i)) \<and>
           (\<forall>i. r' ! i = (if int i \<in> registered g then 0
                          else resize (rnk g) (nat (numVertices g)) 0 ! i))"
proof -
  let ?n = "nat (numVertices g)"
  let ?p = "resize (parent g) ?n 0" and ?r = "resize (rnk g) ?n 0"
  have "length ?r = length ?p" by (simp add: length_resize)
  moreover have "\<forall>kv\<in>set (vertices g). 0 \<le> snd kv \<and> snd kv < int (length ?p)"
    using assms by (auto simp: well_formed_def length_resize)
  ultimately obtain p' r' where 1: "make_set_loop (vertices g) ?p ?r = Some (p', r')"
    and 2: "length p' = length ?p" "length r' = length ?p"
    and 3: "\<forall>i. p' ! i = (if int i \<in> snd ` set (vertices g) then int i else ?p ! i)"
    and 4: "\<forall>i. r' ! i = (if int i \<in> snd ` set (vertices g) then 0 else ?r ! i)"
    using make_set_loop_Some[of ?r ?p "vertices g"] by blast
  have "make_set g = Some (g\<lparr>parent := p', rnk := r'\<rparr>)"
    using assms 1 by (simp add: make_set_def well_formed_def)
  with 2 3 4 show ?thesis
    by (intro exI[of _ p'] exI[of _ r']) (simp add: length_resize registered_def)
qed

lemma conn_Nil: "conn [] = Id"
  by (simp add: conn_def)

lemma getIndex_registered: "0 \<le> getIndex g n \<Longrightarrow> getIndex g n \<in> registered g"
proof -
  assume a: "0 \<le> getIndex g n"
  then obtain i where i: "map_of (vertices g) n = Some i" "getIndex g n = i"
    by (cases "map_of (vertices g) n") (auto simp: getIndex_def)
  from map_of_SomeD[OF i(1)] have "(n, i) \<in> set (vertices g)" .
  then have "snd (n, i) \<in> snd ` set (vertices g)" by (rule imageI)
  with i show ?thesis by (simp add: registered_def)
qed

lemma registered_range:
  "well_formed g \<Longrightarrow> a \<in> registered g \<Longrightarrow> 0 \<le> a \<and> a < numVertices g"
  by (auto simp: well_formed_def registered_def)

lemma init_inv:
  assumes wf: "well_formed g" and ms: "make_set g = Some g'"
  shows "dsu_inv (registered g) [] (parent g') (rnk g') \<and>
         roots (registered g) (parent g') = registered g \<and>
         g' = g\<lparr>parent := parent g', rnk := rnk g'\<rparr>"
proof -
  let ?R = "registered g"
  from make_set_props[OF wf] ms obtain p' r' where g': "g' = g\<lparr>parent := p', rnk := r'\<rparr>"
    and l: "length p' = nat (numVertices g)" "length r' = nat (numVertices g)"
    and p: "\<And>i. int i \<in> ?R \<Longrightarrow> p' ! i = int i"
    by auto
  have rng: "0 \<le> a \<and> a < int (length p')" if "a \<in> ?R" for a
    using registered_range[OF wf that] l by simp
  have self: "p' ! nat a = a" if "a \<in> ?R" for a
    using p[of "nat a"] rng[OF that] that by simp
  have rt: "root_of p' a a" if "a \<in> ?R" for a
    using rng[OF that] self[OF that] by (intro root_of.root) simp_all
  have fin: "finite ?R" by (simp add: registered_def)
  have cl: "closed_in ?R p'"
    unfolding closed_in_def using rng self by simp
  have ss: "same_set p' x y \<longleftrightarrow> (x, y) \<in> conn []" if "x \<in> ?R" "y \<in> ?R" for x y
    using same_set_iff[OF rt[OF that(1)] rt[OF that(2)]] by (simp add: conn_Nil)
  have inv: "dsu_inv ?R [] p' r'"
    unfolding dsu_inv_def using fin cl l rt ss by auto
  have "roots ?R p' = ?R"
  proof (rule set_eqI)
    fix t
    show "t \<in> roots ?R p' \<longleftrightarrow> t \<in> ?R"
    proof
      assume "t \<in> roots ?R p'"
      then obtain x where x: "x \<in> ?R" "root_of p' x t" by (auto simp: roots_def)
      from root_of_det[OF rt[OF x(1)] x(2)] x(1) show "t \<in> ?R" by simp
    next
      assume "t \<in> ?R"
      with rt show "t \<in> roots ?R p'" by (auto simp: roots_def)
    qed
  qed
  with inv g' show ?thesis by simp
qed

lemma edge_pairs_Cons:
  "edge_pairs g (e # es) = (if resolvable g e then [endpoints g e] else []) @ edge_pairs g es"
  by (simp add: edge_pairs_def)

lemma conn_cong: "set U = set V \<Longrightarrow> conn U = conn V"
  by (simp add: conn_def)

lemma dsu_run_inv:
  assumes "dsu_inv (registered g) U p r"
  shows "\<exists>ds p' r'. dsu_run g es p r = Some (ds, p', r') \<and> length ds = length es \<and>
           dsu_inv (registered g) (U @ edge_pairs g es) p' r' \<and>
           (\<forall>i. int i \<notin> registered g \<longrightarrow> p' ! i = p ! i \<and> r' ! i = r ! i) \<and>
           length p' = length p \<and>
           card (roots (registered g) p') + length (filter (\<lambda>d. d) ds) = card (roots (registered g) p) \<and>
           (\<forall>k<length es. ds ! k \<longleftrightarrow>
               resolvable g (es ! k) \<and>
               endpoints g (es ! k) \<notin> conn (U @ edge_pairs g (take k es)))"
  using assms
proof (induction es arbitrary: U p r)
  case Nil
  then show ?case by (simp add: edge_pairs_def)
next
  case (Cons e es)
  let ?R = "registered g"
  show ?case
  proof (cases "resolvable g e")
    case False
    from Cons.IH[OF Cons.prems] obtain ds p' r' where IH:
      "dsu_run g es p r = Some (ds, p', r')" "length ds = length es"
      "dsu_inv ?R (U @ edge_pairs g es) p' r'"
      "\<forall>i. int i \<notin> ?R \<longrightarrow> p' ! i = p ! i \<and> r' ! i = r ! i"
      "length p' = length p"
      "card (roots ?R p') + length (filter (\<lambda>d. d) ds) = card (roots ?R p)"
      "\<forall>k<length es. ds ! k \<longleftrightarrow>
               resolvable g (es ! k) \<and>
               endpoints g (es ! k) \<notin> conn (U @ edge_pairs g (take k es))"
      by blast
    have run: "dsu_run g (e # es) p r = Some (False # ds, p', r')"
      using False IH(1) by simp
    have dec: "(False # ds) ! k \<longleftrightarrow>
               resolvable g ((e # es) ! k) \<and>
               endpoints g ((e # es) ! k) \<notin> conn (U @ edge_pairs g (take k (e # es)))"
      if "k < length (e # es)" for k
      using that False IH(7) by (cases k) (simp_all add: edge_pairs_Cons)
    show ?thesis
      apply (rule exI[of _ "False # ds"], rule exI[of _ p'], rule exI[of _ r'])
      using run IH(2-6) dec False by (simp add: edge_pairs_Cons)
  next
    case True
    let ?a = "getIndex g (src e)" and ?b = "getIndex g (dst e)"
    from True have ab: "?a \<in> ?R" "?b \<in> ?R"
      by (simp_all add: resolvable_def getIndex_registered)
    let ?u = "(?a, ?b) \<notin> conn U"
    from union_step[OF Cons.prems ab] obtain p1 r1 where u:
      "union_set p r ?a ?b = Some (?u, p1, r1)"
      "dsu_inv ?R (U @ [(?a, ?b)]) p1 r1"
      "\<forall>i. int i \<notin> ?R \<longrightarrow> p1 ! i = p ! i \<and> r1 ! i = r ! i"
      "length p1 = length p"
      "card (roots ?R p1) + (if ?u then 1 else 0) = card (roots ?R p)"
      by blast
    from Cons.IH[OF u(2)] obtain ds p' r' where IH:
      "dsu_run g es p1 r1 = Some (ds, p', r')" "length ds = length es"
      "dsu_inv ?R ((U @ [(?a, ?b)]) @ edge_pairs g es) p' r'"
      "\<forall>i. int i \<notin> ?R \<longrightarrow> p' ! i = p1 ! i \<and> r' ! i = r1 ! i"
      "length p' = length p1"
      "card (roots ?R p') + length (filter (\<lambda>d. d) ds) = card (roots ?R p1)"
      "\<forall>k<length es. ds ! k \<longleftrightarrow>
               resolvable g (es ! k) \<and>
               endpoints g (es ! k) \<notin> conn ((U @ [(?a, ?b)]) @ edge_pairs g (take k es))"
      by blast
    have run: "dsu_run g (e # es) p r = Some (?u # ds, p', r')"
      using True u(1) IH(1) by simp
    have dec: "(?u # ds) ! k \<longleftrightarrow>
               resolvable g ((e # es) ! k) \<and>
               endpoints g ((e # es) ! k) \<notin> conn (U @ edge_pairs g (take k (e # es)))"
      if "k < length (e # es)" for k
      using that True IH(7) by (cases k) (simp_all add: edge_pairs_Cons endpoints_def edge_pairs_def)
    have cnt: "card (roots ?R p') + length (filter (\<lambda>d. d) (?u # ds)) = card (roots ?R p)"
      using u(5) IH(6) by (cases ?u) simp_all
    have fr: "\<forall>i. int i \<notin> ?R \<longrightarrow> p' ! i = p ! i \<and> r' ! i = r ! i"
      using u(3) IH(4) by simp
    have inv: "dsu_inv ?R (U @ edge_pairs g (e # es)) p' r'"
      using IH(3) True by (simp add: edge_pairs_Cons endpoints_def)
    show ?thesis
      apply (rule exI[of _ "?u # ds"], rule exI[of _ p'], rule exI[of _ r'])
      using run IH(2) IH(5) u(4) cnt fr inv dec by simp
  qed
qed

section \<open>The two loops\<close>

lemma getIndex_upd [simp]: "getIndex (g\<lparr>parent := p0, rnk := r0\<rparr>) n = getIndex g n"
  by (simp add: getIndex_def)

lemma resolvable_upd [simp]: "resolvable (g\<lparr>parent := p0, rnk := r0\<rparr>) e = resolvable g e"
  by (simp add: resolvable_def)

lemma dsu_run_cong [simp]:
  "dsu_run (g\<lparr>parent := p0, rnk := r0\<rparr>) es p r = dsu_run g es p r"
  by (induction es arbitrary: p r) (simp_all split: option.splits)

lemma mst_loop_run:
  "mst_loop g es m c =
     map_option (\<lambda>(ds, p', r'). (m @ accepted_of es ds,
                   c + sum_list (map weight (accepted_of es ds)), g\<lparr>parent := p', rnk := r'\<rparr>))
       (dsu_run g es (parent g) (rnk g))"
proof (induction es arbitrary: g m c)
  case Nil
  show ?case by (simp add: accepted_of_def)
next
  case (Cons e es)
  show ?case
  proof (cases "resolvable g e")
    case False
    then have "mst_loop g (e # es) m c = mst_loop g es m c"
      by (auto simp: resolvable_def Let_def)
    with False Cons.IH[of g m c] show ?thesis
      by (cases "dsu_run g es (parent g) (rnk g)") (auto simp: accepted_of_def)
  next
    case True
    show ?thesis
    proof (cases "union_set (parent g) (rnk g) (getIndex g (src e)) (getIndex g (dst e))")
      case None
      with True show ?thesis by (simp add: resolvable_def)
    next
      case (Some q)
      obtain u p r where q: "q = (u, p, r)" by (cases q)
      let ?g = "g\<lparr>parent := p, rnk := r\<rparr>"
      have run: "dsu_run g (e # es) (parent g) (rnk g) =
          map_option (\<lambda>(ds, q). (u # ds, q)) (dsu_run g es p r)"
        using True Some q by simp
      show ?thesis
      proof (cases u)
        case True
        have "mst_loop g (e # es) m c = mst_loop ?g es (m @ [e]) (c + weight e)"
          using \<open>resolvable g e\<close> Some q True by (simp add: resolvable_def)
        with Cons.IH[of ?g "m @ [e]" "c + weight e"] run True show ?thesis
          by (cases "dsu_run g es p r") (auto simp: accepted_of_def add.assoc)
      next
        case False
        have "mst_loop g (e # es) m c = mst_loop ?g es m c"
          using \<open>resolvable g e\<close> Some q False by (simp add: resolvable_def)
        with Cons.IH[of ?g m c] run False show ?thesis
          by (cases "dsu_run g es p r") (auto simp: accepted_of_def)
      qed
    qed
  qed
qed

lemma loops_agree:
  "map_option snd (steps_loop g es mi ri c out) = map_option snd (mst_loop g es m c)"
proof (induction es arbitrary: g mi ri c out m)
  case Nil
  show ?case by simp
next
  case (Cons e es)
  show ?case
  proof (cases "0 \<le> getIndex g (src e) \<and> 0 \<le> getIndex g (dst e)")
    case False
    then show ?thesis using Cons.IH by (auto simp: Let_def)
  next
    case True
    show ?thesis
    proof (cases "union_set (parent g) (rnk g) (getIndex g (src e)) (getIndex g (dst e))")
      case None
      with True show ?thesis by simp
    next
      case (Some q)
      obtain u p r where q: "q = (u, p, r)" by (cases q)
      show ?thesis using True Some q Cons.IH by (cases u) (simp_all add: Let_def)
    qed
  qed
qed

lemma trace_ok_upd [simp]:
  "trace_ok (g\<lparr>parent := p0, rnk := r0\<rparr>) m r t es ss = trace_ok g m r t es ss"
  by (induction g m r t es ss rule: trace_ok.induct) simp_all

lemma steps_loop_trace_ok:
  "steps_loop g es m r t out = Some (out', t', g') \<Longrightarrow>
   \<exists>new. out' = out @ new \<and> trace_ok g m r t es new"
proof (induction es arbitrary: g m r t out)
  case Nil
  then show ?case by simp
next
  case (Cons e es)
  let ?s = "\<lambda>acc. \<lparr>consideredEdgeId = edge_id e, accepted = acc,
                      totalWeight = (if acc then t + weight e else t),
                      mstEdgeIds = (if acc then m @ [edge_id e] else m),
                      rejectedEdgeIds = (if acc then r else r @ [edge_id e])\<rparr>"
  from Cons.prems obtain acc g1 where
    dec: "(if 0 \<le> getIndex g (src e) \<and> 0 \<le> getIndex g (dst e)
            then map_option (\<lambda>(u, p, r). (u, g\<lparr>parent := p, rnk := r\<rparr>))
                   (union_set (parent g) (rnk g) (getIndex g (src e)) (getIndex g (dst e)))
            else Some (False, g)) = Some (acc, g1)"
    and rest: "steps_loop g1 es (if acc then m @ [edge_id e] else m)
             (if acc then r else r @ [edge_id e]) (if acc then t + weight e else t)
             (out @ [?s acc]) = Some (out', t', g')"
    by (auto simp: Let_def split: option.splits)
  from dec have res: "acc \<longrightarrow> resolvable g e"
    by (auto simp: resolvable_def split: if_splits)
  have "\<exists>p1 r1. g1 = g\<lparr>parent := p1, rnk := r1\<rparr>"
  proof (cases "0 \<le> getIndex g (src e) \<and> 0 \<le> getIndex g (dst e)")
    case True
    with dec show ?thesis by auto
  next
    case False
    with dec have "g1 = g\<lparr>parent := parent g, rnk := rnk g\<rparr>" by simp
    then show ?thesis by blast
  qed
  then obtain p1 r1 where g1: "g1 = g\<lparr>parent := p1, rnk := r1\<rparr>" by blast
  from Cons.IH[OF rest] obtain new where new:
    "out' = (out @ [?s acc]) @ new"
    "trace_ok g1 (if acc then m @ [edge_id e] else m) (if acc then r else r @ [edge_id e])
       (if acc then t + weight e else t) es new"
    by blast
  show ?case
    apply (rule exI[of _ "?s acc # new"])
    using new res g1 by simp
qed

lemma trace_ok_nth:
  "trace_ok g m r t es ss \<Longrightarrow> k < length es \<Longrightarrow>
   length ss = length es \<and>
   consideredEdgeId (ss ! k) = edge_id (es ! k) \<and>
   (accepted (ss ! k) \<longrightarrow> resolvable g (es ! k)) \<and>
   length (mstEdgeIds (ss ! k)) + length (rejectedEdgeIds (ss ! k)) = length m + length r + Suc k \<and>
   (if accepted (ss ! k)
    then mstEdgeIds (ss ! k) = (if k = 0 then m else mstEdgeIds (ss ! (k - 1))) @ [edge_id (es ! k)] \<and>
         rejectedEdgeIds (ss ! k) = (if k = 0 then r else rejectedEdgeIds (ss ! (k - 1))) \<and>
         totalWeight (ss ! k) = (if k = 0 then t else totalWeight (ss ! (k - 1))) + weight (es ! k)
    else mstEdgeIds (ss ! k) = (if k = 0 then m else mstEdgeIds (ss ! (k - 1))) \<and>
         rejectedEdgeIds (ss ! k) =
           (if k = 0 then r else rejectedEdgeIds (ss ! (k - 1))) @ [edge_id (es ! k)] \<and>
         totalWeight (ss ! k) = (if k = 0 then t else totalWeight (ss ! (k - 1))))"
proof (induction g m r t es ss arbitrary: k rule: trace_ok.induct)
  case (1 g m r t ss)
  then show ?case by simp
next
  case (2 g m r t e es)
  then show ?case by simp
next
  case (3 g m r t e es s ss)
  from "3.prems"(1) have hd:
    "consideredEdgeId s = edge_id e" "accepted s \<longrightarrow> resolvable g e"
    "if accepted s
       then mstEdgeIds s = m @ [edge_id e] \<and> rejectedEdgeIds s = r \<and> totalWeight s = t + weight e
       else mstEdgeIds s = m \<and> rejectedEdgeIds s = r @ [edge_id e] \<and> totalWeight s = t"
    and tl: "trace_ok g (mstEdgeIds s) (rejectedEdgeIds s) (totalWeight s) es ss"
    by simp_all
  have len: "length (mstEdgeIds s) + length (rejectedEdgeIds s) = length m + length r + 1"
    using hd(3) by (cases "accepted s") simp_all
  show ?case
  proof (cases k)
    case 0
    have "length ss = length es"
    proof (cases es)
      case Nil
      with tl show ?thesis by simp
    next
      case (Cons e' es')
      then have "0 < length es" by simp
      from "3.IH"[OF tl this] show ?thesis by simp
    qed
    with 0 hd len show ?thesis by (cases "accepted s") simp_all
  next
    case (Suc j)
    with "3.prems"(2) have j: "j < length es" by simp
    from "3.IH"[OF tl j] Suc len show ?thesis
      by (cases j) (simp_all split: if_splits)
  qed
qed

lemma mst_steps_unfold:
  assumes "mst_steps g = Some (out, tot, g')"
  shows "\<exists>es g2. sort_g g = Some (g\<lparr>edges := es\<rparr>) \<and> mset es = mset (edges g) \<and>
           make_set (g\<lparr>edges := es\<rparr>) = Some g2 \<and>
           edges g2 = es \<and> vertices g2 = vertices g \<and> edges g' = es \<and>
           steps_loop g2 es [] [] 0 [] = Some (out, tot, g')"
proof -
  from sort_g_props[of g] obtain es where es: "sort_g g = Some (g\<lparr>edges := es\<rparr>)"
    and ms: "mset es = mset (edges g)" by (elim exE conjE)
  from assms es obtain g2 where g2: "make_set (g\<lparr>edges := es\<rparr>) = Some g2"
    and lp: "steps_loop g2 (edges g2) [] [] 0 [] = Some (out, tot, g')"
    by (auto simp: mst_steps_def split: Option.bind_splits)
  from init_inv[OF make_set_well_formed[OF g2] g2]
  have g2': "g2 = g\<lparr>edges := es, parent := parent g2, rnk := rnk g2\<rparr>" by simp
  have e2: "edges g2 = es" by (subst g2') simp
  have v2: "vertices g2 = vertices g" by (subst g2') simp
  have "map_option snd (steps_loop g2 es [] [] 0 []) = map_option snd (mst_loop g2 es [] 0)"
    by (rule loops_agree)
  with lp e2 obtain acc where "mst_loop g2 es [] 0 = Some (acc, tot, g')"
    by (cases "mst_loop g2 es [] 0") auto
  then have "edges g' = edges g2"
    unfolding mst_loop_run by (auto split: option.splits)
  with es ms g2 e2 v2 lp show ?thesis by auto
qed

subsection \<open>The text of a trace\<close>

lemma id_list_json_join: "id_list_json ids = comma_join (map id_text ids)"
  by (induction ids rule: id_list_json.induct) simp_all

lemma step_json_text: "step_json s = step_text s"
  by (simp add: step_json_def id_list_json_join)

lemma steps_json_join: "steps_json out = comma_join (map step_text out)"
  by (induction out rule: steps_json.induct) (simp_all add: step_json_text)

lemma trace_json_text: "trace_json out tot = trace_text out tot"
  by (simp add: trace_json_def steps_json_join)

lemma mst_steps_json_text:
  "mst_steps_json g = Some (text, g') \<longleftrightarrow>
     (\<exists>out tot. mst_steps g = Some (out, tot, g') \<and> text = trace_text out tot)"
  by (cases "mst_steps g") (auto simp: mst_steps_json_def trace_json_text)

lemma digit_char: "n < 10 \<Longrightarrow> of_char (''0123456789'' ! n) = (48 + n :: nat)"
proof -
  assume "n < 10"
  then consider "n = 0" | "n = 1" | "n = 2" | "n = 3" | "n = 4" | "n = 5" | "n = 6"
    | "n = 7" | "n = 8" | "n = 9" by atomize_elim arith
  then show ?thesis by cases simp_all
qed

lemma decimal_nat_snoc:
  "decimal_nat (s @ [c]) = 10 * decimal_nat s + (of_char c - 48)"
  by (simp add: decimal_nat_def)

lemma decimal_nat_show_nat: "decimal_nat (show_nat n) = n"
proof (induction n rule: show_nat.induct)
  case (1 n)
  show ?case
  proof (cases "n < 10")
    case True
    then show ?thesis
      by (subst show_nat.simps) (simp add: decimal_nat_def digit_char)
  next
    case False
    have "n mod 10 < 10" by simp
    with False 1 show ?thesis
      by (subst show_nat.simps) (simp add: decimal_nat_snoc digit_char)
  qed
qed

lemma show_nat_digits: "show_nat n \<noteq> [] \<and> hd (show_nat n) \<in> set ''0123456789''"
proof (induction n rule: show_nat.induct)
  case (1 n)
  show ?case
  proof (cases "n < 10")
    case True
    then have "''0123456789'' ! n \<in> set ''0123456789''" by (intro nth_mem) simp
    with True show ?thesis by (subst (1 2) show_nat.simps) simp
  next
    case False
    with 1 show ?thesis by (subst (1 2) show_nat.simps) simp
  qed
qed

lemma decimal_int_show_int: "decimal_int (show_int i) = i"
proof (cases "i < 0")
  case True
  then show ?thesis by (simp add: decimal_int_def show_int_def decimal_nat_show_nat)
next
  case False
  from show_nat_digits[of "nat i"] have "show_nat (nat i) \<noteq> []" "hd (show_nat (nat i)) \<noteq> CHR ''-''"
    by auto
  with False show ?thesis by (simp add: decimal_int_def show_int_def decimal_nat_show_nat)
qed

lemma ex_unknown_run: "mst_steps ex_unknown = Some (ex_unknown_trace, 0, ex_unknown_final)"
  by (simp add: ex_unknown_def ex_unknown_trace_def ex_unknown_final_def mst_steps_def
      sort_g_def sortEdges.simps make_set_def resize_def union_set_def find_set.simps
      getIndex_def addEdge_def addVertex_def Graph_def Let_def)

lemma ex_two_run: "mst_steps ex_two = Some (ex_two_trace, 1, ex_two_final)"
  by (simp add: ex_two_def ex_two_trace_def ex_two_final_def mst_steps_def
      sort_g_def sortEdges.simps make_set_def resize_def union_set_def find_set.simps
      getIndex_def addEdge_def addVertex_def Graph_def numeral_2_eq_2 Let_def)

lemma ex_two_json: "mst_steps_json ex_two = Some (trace_text ex_two_trace 1, ex_two_final)"
  unfolding mst_steps_json_text using ex_two_run by blast

lemma ex_unknown_json:
  "mst_steps_json ex_unknown = Some (trace_text ex_unknown_trace 0, ex_unknown_final)"
  unfolding mst_steps_json_text using ex_unknown_run by blast

text \<open>
  C5.  On the same engine state the two computations agree: either neither has a defined
  result, or \<^verbatim>\<open>mst_steps_json\<close> leaves the engine as \<^verbatim>\<open>mst\<close> leaves it and the text it
  returns ends with \<open>"mstWeight":\<close>, the decimal numeral of the cost that \<^verbatim>\<open>mst\<close> returns,
  and the closing brace.
\<close>

theorem trace_weight_eq_cost:
  \<open>(case mst g of
      None \<Rightarrow> mst_steps_json g = None
    | Some (acc, cost, g') \<Rightarrow>
        (\<exists>out. mst_steps g = Some (out, cost, g') \<and>
               mst_steps_json g =
                 Some (''{"steps":['' @ comma_join (map step_text out) @
                       ''],"mstWeight":'' @ show_int (sint cost) @ ''}'', g')) \<and>
        decimal_int (show_int (sint cost)) = sint cost)\<close>
proof -
  from sort_g_props[of g] obtain es where es: "sort_g g = Some (g\<lparr>edges := es\<rparr>)"
    by (elim exE conjE)
  show ?thesis
  proof (cases "make_set (g\<lparr>edges := es\<rparr>)")
    case None
    with es show ?thesis by (simp add: mst_def mst_steps_json_def mst_steps_def)
  next
    case (Some g2)
    have ag: "map_option snd (steps_loop g2 (edges g2) [] [] 0 []) =
              map_option snd (mst_loop g2 (edges g2) [] 0)"
      by (rule loops_agree)
    have m: "mst g = mst_loop g2 (edges g2) [] 0" using es Some by (simp add: mst_def)
    have s: "mst_steps g = steps_loop g2 (edges g2) [] [] 0 []"
      using es Some by (simp add: mst_steps_def)
    show ?thesis
      using ag unfolding m[symmetric] s[symmetric]
      by (cases "mst g"; cases "mst_steps g")
         (auto simp: mst_steps_json_def trace_json_text decimal_int_show_int)
  qed
qed

section \<open>Forests and components\<close>

lemma seq_forest:
  "(\<forall>k<length F. F ! k \<notin> conn (take k F)) \<Longrightarrow> acyclic_pairs F"
proof (induction F rule: rev_induct)
  case Nil
  show ?case by (simp add: acyclic_pairs_def)
next
  case (snoc e F)
  obtain a b where e: "e = (a, b)" by (cases e)
  have prefix: "\<forall>k<length F. F ! k \<notin> conn (take k F)"
  proof (intro allI impI)
    fix k assume k: "k < length F"
    with snoc.prems have "(F @ [e]) ! k \<notin> conn (take k (F @ [e]))" by simp
    with k show "F ! k \<notin> conn (take k F)" by (simp add: nth_append)
  qed
  from snoc.IH[OF prefix] have IH: "\<And>k. k < length F \<Longrightarrow> F ! k \<notin> conn (take k F @ drop (Suc k) F)"
    by (simp add: acyclic_pairs_def)
  from snoc.prems have last: "(a, b) \<notin> conn F"
    using e by (auto dest: spec[of _ "length F"])
  show ?case
    unfolding acyclic_pairs_def
  proof (intro allI impI)
    fix k assume k: "k < length (F @ [e])"
    show "(F @ [e]) ! k \<notin> conn (take k (F @ [e]) @ drop (Suc k) (F @ [e]))"
    proof (cases "k = length F")
      case True
      with last e show ?thesis by simp
    next
      case False
      with k have kF: "k < length F" by simp
      let ?W = "take k F @ drop (Suc k) F"
      obtain c d where cd: "F ! k = (c, d)" by (cases "F ! k")
      have W: "take k (F @ [e]) @ drop (Suc k) (F @ [e]) = ?W @ [(a, b)]"
        using kF e by simp
      have sub: "conn ?W \<subseteq> conn F"
        by (rule conn_mono) (auto dest: in_set_takeD in_set_dropD)
      have cdF: "(c, d) \<in> conn F"
        using kF cd by (intro conn_edge) (metis nth_mem)
      have nW: "(c, d) \<notin> conn ?W" using IH[OF kF] cd by simp
      have "(c, d) \<notin> conn (?W @ [(a, b)])"
      proof
        assume "(c, d) \<in> conn (?W @ [(a, b)])"
        with nW have "((c, a) \<in> conn ?W \<and> (b, d) \<in> conn ?W) \<or>
                      ((c, b) \<in> conn ?W \<and> (a, d) \<in> conn ?W)"
          using conn_snoc[of c d ?W a b] by blast
        with sub have "((c, a) \<in> conn F \<and> (b, d) \<in> conn F) \<or>
                      ((c, b) \<in> conn F \<and> (a, d) \<in> conn F)"
          by blast
        with cdF have "(a, b) \<in> conn F"
          by (meson conn_sym conn_trans)
        with last show False by simp
      qed
      with W cd kF show ?thesis by (simp add: nth_append)
    qed
  qed
qed

lemma accepted_seq:
  "length ds = length es \<Longrightarrow>
   (\<forall>k<length es. ds ! k \<longrightarrow> endpoints g (es ! k) \<notin> conn (U @ edge_pairs g (take k es)) \<and>
        resolvable g (es ! k)) \<Longrightarrow>
   set U' \<subseteq> set U \<Longrightarrow>
   (\<forall>j<length (accepted_of es ds).
       map (endpoints g) (accepted_of es ds) ! j \<notin>
         conn (U' @ take j (map (endpoints g) (accepted_of es ds))))"
proof (induction ds es arbitrary: U U' rule: list_induct2)
  case Nil
  show ?case by (simp add: accepted_of_def)
next
  case (Cons d ds e es)
  let ?A = "map (endpoints g) (accepted_of es ds)"
  let ?U1 = "U @ (if resolvable g e then [endpoints g e] else [])"
  have tl: "\<forall>k<length es. ds ! k \<longrightarrow>
      endpoints g (es ! k) \<notin> conn (?U1 @ edge_pairs g (take k es)) \<and> resolvable g (es ! k)"
  proof (intro allI impI)
    fix k assume k: "k < length es" and dk: "ds ! k"
    from Cons.prems(1)[rule_format, of "Suc k"] k dk
    show "endpoints g (es ! k) \<notin> conn (?U1 @ edge_pairs g (take k es)) \<and> resolvable g (es ! k)"
      by (simp add: edge_pairs_Cons)
  qed
  show ?case
  proof (cases d)
    case False
    have "set U' \<subseteq> set ?U1" using Cons.prems(2) by auto
    from Cons.IH[OF tl this] False show ?thesis by (simp add: accepted_of_def)
  next
    case True
    from Cons.prems(1)[rule_format, of 0] True
    have h: "endpoints g e \<notin> conn U" "resolvable g e" by (simp_all add: edge_pairs_def)
    have s1: "set (U' @ [endpoints g e]) \<subseteq> set ?U1" using Cons.prems(2) h by auto
    have A: "accepted_of (e # es) (d # ds) = e # accepted_of es ds"
      using True by (simp add: accepted_of_def)
    show ?thesis
    proof (intro allI impI)
      fix j assume j: "j < length (accepted_of (e # es) (d # ds))"
      show "map (endpoints g) (accepted_of (e # es) (d # ds)) ! j \<notin>
         conn (U' @ take j (map (endpoints g) (accepted_of (e # es) (d # ds))))"
      proof (cases j)
        case 0
        have "conn U' \<subseteq> conn U" using Cons.prems(2) by (rule conn_mono)
        with h 0 A show ?thesis by auto
      next
        case (Suc j')
        with j A have "j' < length (accepted_of es ds)" by simp
        with Cons.IH[OF tl s1] have "?A ! j' \<notin> conn ((U' @ [endpoints g e]) @ take j' ?A)"
          by blast
        with Suc A show ?thesis by simp
      qed
    qed
  qed
qed

lemma card_image_kernel:
  "finite S \<Longrightarrow> (\<forall>x\<in>S. \<forall>y\<in>S. f x = f y \<longleftrightarrow> h x = h y) \<Longrightarrow> card (f ` S) = card (h ` S)"
proof (induction S rule: finite_induct)
  case empty
  show ?case by simp
next
  case (insert a S)
  from insert.prems have IH: "card (f ` S) = card (h ` S)"
    by (intro insert.IH) blast
  have "f a \<in> f ` S \<longleftrightarrow> h a \<in> h ` S"
    using insert.prems by (auto simp: image_iff)
  with IH insert.hyps(1) show ?case by (simp add: card_insert_if)
qed

lemma conn_class_eq: "conn E `` {x} = conn E `` {y} \<longleftrightarrow> (x, y) \<in> conn E"
proof
  assume "conn E `` {x} = conn E `` {y}"
  moreover have "y \<in> conn E `` {y}" by (simp add: conn_refl)
  ultimately show "(x, y) \<in> conn E" by blast
next
  assume "(x, y) \<in> conn E"
  then show "conn E `` {x} = conn E `` {y}"
    by (auto intro: conn_trans conn_sym)
qed

lemma comp_count:
  assumes fin: "finite R" and sub: "S \<subseteq> R" and ex: "\<forall>a\<in>R. \<exists>s. root_of p a s"
    and cn: "\<forall>x\<in>R. \<forall>y\<in>R. same_set p x y \<longleftrightarrow> (x, y) \<in> conn E"
  shows "card (S // conn E) \<le> card (roots R p)"
proof -
  from ex obtain f where f: "\<forall>a\<in>R. root_of p a (f a)" by metis
  have rts: "roots R p = f ` R"
  proof (rule set_eqI)
    fix t
    show "t \<in> roots R p \<longleftrightarrow> t \<in> f ` R"
    proof
      assume "t \<in> roots R p"
      then obtain x where x: "x \<in> R" "root_of p x t" by (auto simp: roots_def)
      from f x(1) have "root_of p x (f x)" by simp
      from root_of_det[OF this x(2)] x(1) show "t \<in> f ` R" by simp
    next
      assume "t \<in> f ` R"
      with f show "t \<in> roots R p" by (auto simp: roots_def)
    qed
  qed
  have finS: "finite S" using fin sub by (rule rev_finite_subset)
  have q: "S // conn E = (\<lambda>x. conn E `` {x}) ` S"
    by (auto simp: quotient_def)
  have k: "\<forall>x\<in>S. \<forall>y\<in>S. conn E `` {x} = conn E `` {y} \<longleftrightarrow> f x = f y"
  proof (intro ballI)
    fix x y assume x: "x \<in> S" and y: "y \<in> S"
    with sub have xR: "x \<in> R" and yR: "y \<in> R" by auto
    from f xR yR have "same_set p x y \<longleftrightarrow> f x = f y"
      by (intro same_set_iff) simp_all
    with cn xR yR show "conn E `` {x} = conn E `` {y} \<longleftrightarrow> f x = f y"
      by (simp add: conn_class_eq)
  qed
  have "card (S // conn E) = card (f ` S)"
    unfolding q using finS k by (rule card_image_kernel)
  also have "\<dots> \<le> card (f ` R)"
    using sub fin by (intro card_mono) auto
  finally show ?thesis by (simp add: rts)
qed

lemma resolvable_vcong: "vertices g' = vertices g \<Longrightarrow> resolvable g' e = resolvable g e"
  by (simp add: resolvable_def getIndex_def)

lemma dsu_run_vcong: "vertices g' = vertices g \<Longrightarrow> dsu_run g' es p r = dsu_run g es p r"
  by (induction es arbitrary: p r)
    (simp_all add: resolvable_def getIndex_def split: option.splits)

lemma length_accepted_of:
  "length ds = length es \<Longrightarrow> length (accepted_of es ds) = length (filter (\<lambda>d. d) ds)"
  by (induction ds es rule: list_induct2) (simp_all add: accepted_of_def)

lemma accepted_of_nth:
  "length ds = length es \<Longrightarrow> e \<in> set (accepted_of es ds) \<Longrightarrow> \<exists>k<length es. es ! k = e \<and> ds ! k"
proof -
  assume l: "length ds = length es" and e: "e \<in> set (accepted_of es ds)"
  then have "(e, True) \<in> set (zip es ds)" by (auto simp: accepted_of_def)
  then obtain k where "k < length es" "es ! k = e" "ds ! k"
    using l by (auto simp: in_set_zip)
  then show ?thesis by blast
qed

lemma card_registered:
  assumes "well_formed g"
  shows "int (card (registered g)) \<le> numVertices g"
proof -
  let ?n = "nat (numVertices g)"
  have "nat ` registered g \<subseteq> {0..<?n}"
  proof (rule image_subsetI)
    fix a assume "a \<in> registered g"
    from registered_range[OF assms this] show "nat a \<in> {0..<?n}" by simp
  qed
  then have "card (nat ` registered g) \<le> card {0..<?n}"
    by (intro card_mono) simp_all
  moreover have "inj_on nat (registered g)"
  proof (rule inj_onI)
    fix x y assume "x \<in> registered g" "y \<in> registered g" "nat x = nat y"
    with registered_range[OF assms, of x] registered_range[OF assms, of y]
    show "x = y" by (simp add: nat_eq_iff)
  qed
  ultimately have "card (registered g) \<le> ?n"
    by (simp add: card_image)
  then have "int (card (registered g)) \<le> int ?n" by (simp only: of_nat_le_iff)
  moreover from assms have "int ?n = numVertices g" by (simp add: well_formed_def)
  ultimately show ?thesis by (simp only:)
qed

lemma mst_run:
  assumes wf: "well_formed g"
  shows "\<exists>es p0 r0 ds p' r'.
           sort_g g = Some (g\<lparr>edges := es\<rparr>) \<and> mset es = mset (edges g) \<and>
           make_set (g\<lparr>edges := es\<rparr>) = Some (g\<lparr>edges := es, parent := p0, rnk := r0\<rparr>) \<and>
           roots (registered g) p0 = registered g \<and>
           dsu_run g es p0 r0 = Some (ds, p', r') \<and> length ds = length es \<and>
           dsu_inv (registered g) (edge_pairs g es) p' r' \<and>
           card (roots (registered g) p') + length (filter (\<lambda>d. d) ds) = card (registered g) \<and>
           (\<forall>k<length es. ds ! k \<longleftrightarrow>
               resolvable g (es ! k) \<and>
               endpoints g (es ! k) \<notin> conn (edge_pairs g (take k es))) \<and>
           mst g = Some (accepted_of es ds, sum_list (map weight (accepted_of es ds)),
                         g\<lparr>edges := es, parent := p', rnk := r'\<rparr>)"
proof -
  from sort_g_props[of g] obtain es where es: "sort_g g = Some (g\<lparr>edges := es\<rparr>)"
    "mset es = mset (edges g)" by (elim exE conjE)
  let ?g1 = "g\<lparr>edges := es\<rparr>"
  have wf1: "well_formed ?g1" using wf by (simp add: well_formed_def)
  from make_set_props[OF wf1] obtain p0 r0 where
    ms: "make_set ?g1 = Some (?g1\<lparr>parent := p0, rnk := r0\<rparr>)" by (elim exE conjE)
  let ?g2 = "?g1\<lparr>parent := p0, rnk := r0\<rparr>"
  have v2: "vertices ?g2 = vertices g" by simp
  have R: "registered ?g1 = registered g" by (simp add: registered_def)
  from init_inv[OF wf1 ms] have inv0: "dsu_inv (registered g) [] p0 r0"
    and rt0: "roots (registered g) p0 = registered g"
    by (simp_all add: R)
  from dsu_run_inv[of g "[]" p0 r0 es, OF inv0] obtain ds p' r' where run:
    "dsu_run g es p0 r0 = Some (ds, p', r')" "length ds = length es"
    "dsu_inv (registered g) ([] @ edge_pairs g es) p' r'"
    "card (roots (registered g) p') + length (filter (\<lambda>d. d) ds) = card (roots (registered g) p0)"
    "\<forall>k<length es. ds ! k \<longleftrightarrow> resolvable g (es ! k) \<and>
               endpoints g (es ! k) \<notin> conn ([] @ edge_pairs g (take k es))"
    by (elim exE conjE)
  have "dsu_run ?g2 es (parent ?g2) (rnk ?g2) = dsu_run g es p0 r0"
    using dsu_run_vcong[OF v2] by simp
  then have "mst_loop ?g2 es [] 0 =
      Some (accepted_of es ds, sum_list (map weight (accepted_of es ds)),
            ?g2\<lparr>parent := p', rnk := r'\<rparr>)"
    unfolding mst_loop_run using run(1) by simp
  then have "mst g = Some (accepted_of es ds, sum_list (map weight (accepted_of es ds)),
                         g\<lparr>edges := es, parent := p', rnk := r'\<rparr>)"
    using es(1) ms by (simp add: mst_def)
  with es ms rt0 run show ?thesis
    by (intro exI[of _ es] exI[of _ p0] exI[of _ r0] exI[of _ ds] exI[of _ p'] exI[of _ r']) simp
qed

text \<open>C7.  With every registered index in range \<^verbatim>\<open>mst\<close> returns; the accepted edges are
  resolvable and contain no cycle, and their number plus the number of connected components
  among the vertices referenced by edges is at most \<open>numVertices\<close>.\<close>

theorem mst_forest:
  assumes wf: "well_formed g"
  shows "\<exists>acc cost g'. mst g = Some (acc, cost, g') \<and>
           (\<forall>e\<in>set acc. resolvable g e) \<and>
           acyclic_pairs (map (endpoints g) acc) \<and>
           int (length acc) + int (card (ref_vertices g // conn (edge_pairs g (edges g))))
             \<le> numVertices g"
proof -
  let ?R = "registered g"
  from mst_run[OF wf] obtain es p0 r0 ds p' r' where
    ms: "mset es = mset (edges g)"
    and l: "length ds = length es"
    and inv: "dsu_inv ?R (edge_pairs g es) p' r'"
    and cnt: "card (roots ?R p') + length (filter (\<lambda>d. d) ds) = card ?R"
    and dec: "\<forall>k<length es. ds ! k \<longleftrightarrow>
               resolvable g (es ! k) \<and>
               endpoints g (es ! k) \<notin> conn (edge_pairs g (take k es))"
    and m: "mst g = Some (accepted_of es ds, sum_list (map weight (accepted_of es ds)),
                         g\<lparr>edges := es, parent := p', rnk := r'\<rparr>)"
    by (elim exE conjE)
  let ?acc = "accepted_of es ds"
  have res: "\<forall>e\<in>set ?acc. resolvable g e"
    using accepted_of_nth[OF l] dec by blast
  have "\<forall>k<length es. ds ! k \<longrightarrow>
      endpoints g (es ! k) \<notin> conn ([] @ edge_pairs g (take k es)) \<and> resolvable g (es ! k)"
    using dec by simp
  from accepted_seq[OF l this, of "[]"]
  have "\<forall>j<length (map (endpoints g) ?acc).
          map (endpoints g) ?acc ! j \<notin> conn (take j (map (endpoints g) ?acc))"
    by simp
  then have forest: "acyclic_pairs (map (endpoints g) ?acc)" by (rule seq_forest)
  have sub: "ref_vertices g \<subseteq> ?R"
    by (auto simp: ref_vertices_def getIndex_registered)
  have "set es = set (edges g)" using ms by (rule mset_eq_setD)
  then have "set (edge_pairs g es) = set (edge_pairs g (edges g))"
    by (simp add: edge_pairs_def)
  then have ce: "conn (edge_pairs g es) = conn (edge_pairs g (edges g))" by (rule conn_cong)
  from inv have "finite ?R" "\<forall>a\<in>?R. \<exists>s. root_of p' a s"
    "\<forall>x\<in>?R. \<forall>y\<in>?R. same_set p' x y \<longleftrightarrow> (x, y) \<in> conn (edge_pairs g es)"
    by (simp_all add: dsu_inv_def)
  from comp_count[OF this(1) sub this(2) this(3)]
  have "card (ref_vertices g // conn (edge_pairs g (edges g))) \<le> card (roots ?R p')"
    by (simp add: ce)
  with cnt length_accepted_of[OF l] card_registered[OF wf]
  have "int (length ?acc) + int (card (ref_vertices g // conn (edge_pairs g (edges g))))
             \<le> numVertices g"
    by simp
  with m res forest show ?thesis by blast
qed

theorem mst_forest_witness:
  "well_formed ex_two \<and>
   (\<exists>acc cost g'. mst ex_two = Some (acc, cost, g') \<and>
           (\<forall>e\<in>set acc. resolvable ex_two e) \<and>
           acyclic_pairs (map (endpoints ex_two) acc) \<and>
           int (length acc) + int (card (ref_vertices ex_two // conn (edge_pairs ex_two (edges ex_two))))
             \<le> numVertices ex_two)"
proof -
  have wf: "well_formed ex_two"
    by (simp add: well_formed_def ex_two_def addEdge_def addVertex_def Graph_def)
  from mst_forest[OF wf] wf show ?thesis by simp
qed

section \<open>Reachable states, empty edge list, traces\<close>

lemma reach_inv: "dsu_reach g us p r \<Longrightarrow> dsu_inv (registered g) us p r"
proof (induction rule: dsu_reach.induct)
  case (init g')
  from init_inv[OF make_set_well_formed[OF init] init] show ?case by simp
next
  case (union us p r a b u p' r')
  from union_step[OF union.IH union.hyps(2,3)] union.hyps(4) show ?case by auto
qed

lemma trace_ok_length: "trace_ok g m r t es ss \<Longrightarrow> length ss = length es"
  by (induction g m r t es ss rule: trace_ok.induct) simp_all

text \<open>C10.  With no edge added, \<^verbatim>\<open>sort\<close> leaves the engine as it is, \<^verbatim>\<open>mst\<close> returns the
  empty sequence with cost 0, and \<^verbatim>\<open>mst_steps_json\<close> returns the text with no step and
  \<open>mstWeight\<close> 0.  The registered indices have to be in range: \<^verbatim>\<open>make_set\<close> runs in both
  entry points before the loop.\<close>

theorem empty_edge_list:
  assumes "well_formed g" "edges g = []"
  shows \<open>sort_g g = Some g \<and>
         (\<exists>p r. mst g = Some ([], 0, g\<lparr>parent := p, rnk := r\<rparr>) \<and>
                mst_steps_json g = Some (''{"steps":[],"mstWeight":0}'', g\<lparr>parent := p, rnk := r\<rparr>))\<close>
proof -
  have s: "sort_g g = Some g" using assms(2) by (simp add: sort_g_def)
  from make_set_props[OF assms(1)] obtain p r where
    ms: "make_set g = Some (g\<lparr>parent := p, rnk := r\<rparr>)" by (elim exE conjE)
  have "mst g = Some ([], 0, g\<lparr>parent := p, rnk := r\<rparr>)"
    using s ms assms(2) by (simp add: mst_def)
  moreover have \<open>mst_steps_json g = Some (''{"steps":[],"mstWeight":0}'', g\<lparr>parent := p, rnk := r\<rparr>)\<close>
    using s ms assms(2)
    by (simp add: mst_steps_json_def mst_steps_def trace_json_def show_int_def show_nat.simps)
  ultimately show ?thesis using s by blast
qed

theorem empty_edge_list_witness:
  \<open>well_formed ex_pair \<and> edges ex_pair = [] \<and> sort_g ex_pair = Some ex_pair \<and>
         (\<exists>p r. mst ex_pair = Some ([], 0, ex_pair\<lparr>parent := p, rnk := r\<rparr>) \<and>
                mst_steps_json ex_pair =
                  Some (''{"steps":[],"mstWeight":0}'', ex_pair\<lparr>parent := p, rnk := r\<rparr>))\<close>
proof -
  have 1: "well_formed ex_pair" and 2: "edges ex_pair = []"
    by (simp_all add: well_formed_def ex_pair_def addVertex_def Graph_def)
  from empty_edge_list[OF 1 2] 1 2 show ?thesis by simp
qed

lemma trace_ok_vcong:
  assumes "vertices g' = vertices g"
  shows "trace_ok g' m r t es ss = trace_ok g m r t es ss"
proof (induction es arbitrary: m r t ss)
  case Nil
  show ?case by simp
next
  case (Cons e es)
  show ?case
    by (cases ss) (simp_all add: resolvable_vcong[OF assms] Cons.IH)
qed

lemma mst_steps_trace_ok:
  assumes "mst_steps g = Some (out, tot, g')"
  shows "mset (edges g') = mset (edges g) \<and> trace_ok g [] [] 0 (edges g') out"
proof -
  from mst_steps_unfold[OF assms] obtain es g2 where
    u: "sort_g g = Some (g\<lparr>edges := es\<rparr>)" "vertices g2 = vertices g" "edges g' = es"
       "steps_loop g2 es [] [] 0 [] = Some (out, tot, g')"
    and ms: "mset es = mset (edges g)"
    by (elim exE conjE)
  from steps_loop_trace_ok[OF u(4)] have "trace_ok g2 [] [] 0 es out" by simp
  then show ?thesis using ms u(3) trace_ok_vcong[OF u(2)] by simp
qed

lemma trace_law:
  assumes "mst_steps g = Some (out, tot, g')" and "k < length out"
  shows "length (mstEdgeIds (out ! k)) + length (rejectedEdgeIds (out ! k)) = Suc k \<and>
         consideredEdgeId (out ! k) = edge_id (edges g' ! k) \<and>
         (if accepted (out ! k)
          then mstEdgeIds (out ! k) =
                 (if k = 0 then [] else mstEdgeIds (out ! (k - 1))) @ [consideredEdgeId (out ! k)] \<and>
               rejectedEdgeIds (out ! k) = (if k = 0 then [] else rejectedEdgeIds (out ! (k - 1)))
          else mstEdgeIds (out ! k) = (if k = 0 then [] else mstEdgeIds (out ! (k - 1))) \<and>
               rejectedEdgeIds (out ! k) =
                 (if k = 0 then [] else rejectedEdgeIds (out ! (k - 1))) @ [consideredEdgeId (out ! k)])"
proof -
  from mst_steps_trace_ok[OF assms(1)] have t: "trace_ok g [] [] 0 (edges g') out" by simp
  from trace_ok_length[OF t] assms(2) have k: "k < length (edges g')" by simp
  note N = trace_ok_nth[OF t k]
  from N[THEN conjunct2, THEN conjunct2, THEN conjunct2, THEN conjunct1]
  have 1: "length (mstEdgeIds (out ! k)) + length (rejectedEdgeIds (out ! k)) = Suc k" by simp
  from N have 2: "consideredEdgeId (out ! k) = edge_id (edges g' ! k)" by blast
  from N[THEN conjunct2, THEN conjunct2, THEN conjunct2, THEN conjunct2] 2
  have 3: "if accepted (out ! k)
          then mstEdgeIds (out ! k) =
                 (if k = 0 then [] else mstEdgeIds (out ! (k - 1))) @ [consideredEdgeId (out ! k)] \<and>
               rejectedEdgeIds (out ! k) = (if k = 0 then [] else rejectedEdgeIds (out ! (k - 1)))
          else mstEdgeIds (out ! k) = (if k = 0 then [] else mstEdgeIds (out ! (k - 1))) \<and>
               rejectedEdgeIds (out ! k) =
                 (if k = 0 then [] else rejectedEdgeIds (out ! (k - 1))) @ [consideredEdgeId (out ! k)]"
    by (cases "accepted (out ! k)") simp_all
  from 1 2 3 show ?thesis by (intro conjI)
qed

text \<open>
  C8.  The text that \<^verbatim>\<open>mst_steps_json\<close> returns is the text of a list of steps, one for
  each edge of the sorted list and in its order, in which the step at position \<open>k\<close>
  (counted from 0) prints two lists that have \<open>k + 1\<close> entries together and are the lists
  of the step before (empty lists for the first step) with the id of the considered edge
  appended to exactly one of them.
\<close>

theorem trace_accumulation:
  assumes "mst_steps_json g = Some (text, g')"
  shows "\<exists>out tot. text = trace_text out tot \<and> length out = length (edges g') \<and>
     (\<forall>k<length out.
        length (mstEdgeIds (out ! k)) + length (rejectedEdgeIds (out ! k)) = Suc k \<and>
        consideredEdgeId (out ! k) = edge_id (edges g' ! k) \<and>
        (if accepted (out ! k)
         then mstEdgeIds (out ! k) =
                (if k = 0 then [] else mstEdgeIds (out ! (k - 1))) @ [consideredEdgeId (out ! k)] \<and>
              rejectedEdgeIds (out ! k) = (if k = 0 then [] else rejectedEdgeIds (out ! (k - 1)))
         else mstEdgeIds (out ! k) = (if k = 0 then [] else mstEdgeIds (out ! (k - 1))) \<and>
              rejectedEdgeIds (out ! k) =
                (if k = 0 then [] else rejectedEdgeIds (out ! (k - 1))) @ [consideredEdgeId (out ! k)]))"
proof -
  from assms obtain out tot where s: "mst_steps g = Some (out, tot, g')"
    and t: "text = trace_text out tot"
    unfolding mst_steps_json_text by blast
  from mst_steps_trace_ok[OF s] have "trace_ok g [] [] 0 (edges g') out" by simp
  from trace_ok_length[OF this] have l: "length out = length (edges g')" .
  have law: "\<forall>k<length out.
        length (mstEdgeIds (out ! k)) + length (rejectedEdgeIds (out ! k)) = Suc k \<and>
        consideredEdgeId (out ! k) = edge_id (edges g' ! k) \<and>
        (if accepted (out ! k)
         then mstEdgeIds (out ! k) =
                (if k = 0 then [] else mstEdgeIds (out ! (k - 1))) @ [consideredEdgeId (out ! k)] \<and>
              rejectedEdgeIds (out ! k) = (if k = 0 then [] else rejectedEdgeIds (out ! (k - 1)))
         else mstEdgeIds (out ! k) = (if k = 0 then [] else mstEdgeIds (out ! (k - 1))) \<and>
              rejectedEdgeIds (out ! k) =
                (if k = 0 then [] else rejectedEdgeIds (out ! (k - 1))) @ [consideredEdgeId (out ! k)])"
    by (intro allI impI) (erule trace_law[OF s])
  show ?thesis
    by (rule exI[of _ out], rule exI[of _ tot], rule conjI[OF t conjI[OF l law]])
qed

theorem trace_accumulation_witness:
  "mst_steps_json ex_two = Some (trace_text ex_two_trace 1, ex_two_final) \<and>
   (\<exists>out tot. trace_text ex_two_trace 1 = trace_text out tot \<and>
     length out = length (edges ex_two_final) \<and>
     (\<forall>k<length out.
        length (mstEdgeIds (out ! k)) + length (rejectedEdgeIds (out ! k)) = Suc k \<and>
        consideredEdgeId (out ! k) = edge_id (edges ex_two_final ! k) \<and>
        (if accepted (out ! k)
         then mstEdgeIds (out ! k) =
                (if k = 0 then [] else mstEdgeIds (out ! (k - 1))) @ [consideredEdgeId (out ! k)] \<and>
              rejectedEdgeIds (out ! k) = (if k = 0 then [] else rejectedEdgeIds (out ! (k - 1)))
         else mstEdgeIds (out ! k) = (if k = 0 then [] else mstEdgeIds (out ! (k - 1))) \<and>
              rejectedEdgeIds (out ! k) =
                (if k = 0 then [] else rejectedEdgeIds (out ! (k - 1))) @ [consideredEdgeId (out ! k)])))"
  by (rule conjI[OF ex_two_json trace_accumulation[OF ex_two_json]])

text \<open>
  C1, as the code has it.  For an edge of the sorted list with a source or destination name
  that is not in the vertex map: the pass of the loop over it calls no \<^verbatim>\<open>union_set\<close> and
  goes on with the engine as it found it, parent and rank vectors included; the edge is
  never accepted, and its step leaves \<open>mstEdgeIds\<close> and \<open>totalWeight\<close> as they were.
  It does get a step of its own in the returned text, with action \<open>reject\<close> and reason
  \<open>cycle\<close>, and its id is appended to \<open>rejectedEdgeIds\<close>.
\<close>

theorem unregistered_edge_rejected:
  assumes "mst_steps_json g = Some (text, g')" and "k < length (edges g')"
    and "map_of (vertices g) (src (edges g' ! k)) = None \<or>
         map_of (vertices g) (dst (edges g' ! k)) = None"
  shows \<open>(\<forall>h es m r t acc. vertices h = vertices g \<longrightarrow>
            steps_loop h (edges g' ! k # es) m r t acc =
            steps_loop h es m (r @ [edge_id (edges g' ! k)]) t
              (acc @ [\<lparr>consideredEdgeId = edge_id (edges g' ! k), accepted = False,
                       totalWeight = t, mstEdgeIds = m,
                       rejectedEdgeIds = r @ [edge_id (edges g' ! k)]\<rparr>])) \<and>
         (\<exists>out tot. text = trace_text out tot \<and> mset (edges g') = mset (edges g) \<and>
            length out = length (edges g') \<and>
            out ! k =
              \<lparr>consideredEdgeId = edge_id (edges g' ! k), accepted = False,
               totalWeight = (if k = 0 then 0 else totalWeight (out ! (k - 1))),
               mstEdgeIds = (if k = 0 then [] else mstEdgeIds (out ! (k - 1))),
               rejectedEdgeIds =
                 (if k = 0 then [] else rejectedEdgeIds (out ! (k - 1))) @
                 [edge_id (edges g' ! k)]\<rparr> \<and>
            step_text (out ! k) =
              ''{"consideredEdgeId":"'' @ json_escape (edge_id (edges g' ! k)) @
              ''","action":"reject","reason":"cycle","totalWeight":'' @
              show_int (sint (if k = 0 then 0 else totalWeight (out ! (k - 1)))) @
              '',"mstEdgeIds":['' @
              comma_join (map id_text (if k = 0 then [] else mstEdgeIds (out ! (k - 1)))) @
              ''],"rejectedEdgeIds":['' @
              comma_join (map id_text
                ((if k = 0 then [] else rejectedEdgeIds (out ! (k - 1))) @
                 [edge_id (edges g' ! k)])) @ '']}'')\<close>
proof -
  let ?e = "edges g' ! k"
  have pass: "steps_loop h (?e # es) m r t acc =
            steps_loop h es m (r @ [edge_id ?e]) t
              (acc @ [\<lparr>consideredEdgeId = edge_id ?e, accepted = False,
                       totalWeight = t, mstEdgeIds = m,
                       rejectedEdgeIds = r @ [edge_id ?e]\<rparr>])"
    if v: "vertices h = vertices g" for h es m r t acc
  proof -
    from assms(3) v have c: "(0 \<le> getIndex h (src ?e) \<and> 0 \<le> getIndex h (dst ?e)) = False"
      by (auto simp: getIndex_def)
    show ?thesis by (simp add: Let_def c)
  qed
  from assms(1) obtain out tot where s: "mst_steps g = Some (out, tot, g')"
    and t: "text = trace_text out tot"
    unfolding mst_steps_json_text by blast
  from mst_steps_trace_ok[OF s] have ms: "mset (edges g') = mset (edges g)"
    and tr: "trace_ok g [] [] 0 (edges g') out" by simp_all
  from trace_ok_length[OF tr] have l: "length out = length (edges g')" .
  from assms(3) have nr: "\<not> resolvable g ?e"
    by (auto simp: resolvable_def getIndex_def)
  from trace_ok_nth[OF tr assms(2)] nr have f:
    "consideredEdgeId (out ! k) = edge_id ?e" "\<not> accepted (out ! k)"
    "mstEdgeIds (out ! k) = (if k = 0 then [] else mstEdgeIds (out ! (k - 1)))"
    "totalWeight (out ! k) = (if k = 0 then 0 else totalWeight (out ! (k - 1)))"
    "rejectedEdgeIds (out ! k) =
           (if k = 0 then [] else rejectedEdgeIds (out ! (k - 1))) @ [edge_id ?e]"
    by (cases "accepted (out ! k)"; simp)+
  have rec: "out ! k =
              \<lparr>consideredEdgeId = edge_id ?e, accepted = False,
               totalWeight = (if k = 0 then 0 else totalWeight (out ! (k - 1))),
               mstEdgeIds = (if k = 0 then [] else mstEdgeIds (out ! (k - 1))),
               rejectedEdgeIds =
                 (if k = 0 then [] else rejectedEdgeIds (out ! (k - 1))) @ [edge_id ?e]\<rparr>"
    using f by (cases "out ! k") simp
  have stext: \<open>step_text (out ! k) =
              ''{"consideredEdgeId":"'' @ json_escape (edge_id ?e) @
              ''","action":"reject","reason":"cycle","totalWeight":'' @
              show_int (sint (if k = 0 then 0 else totalWeight (out ! (k - 1)))) @
              '',"mstEdgeIds":['' @
              comma_join (map id_text (if k = 0 then [] else mstEdgeIds (out ! (k - 1)))) @
              ''],"rejectedEdgeIds":['' @
              comma_join (map id_text
                ((if k = 0 then [] else rejectedEdgeIds (out ! (k - 1))) @ [edge_id ?e])) @
              '']}''\<close>
    by (subst (1 2 3 4 5 6) rec) simp
  have p: "\<forall>h es m r t acc. vertices h = vertices g \<longrightarrow>
            steps_loop h (?e # es) m r t acc =
            steps_loop h es m (r @ [edge_id ?e]) t
              (acc @ [\<lparr>consideredEdgeId = edge_id ?e, accepted = False,
                       totalWeight = t, mstEdgeIds = m,
                       rejectedEdgeIds = r @ [edge_id ?e]\<rparr>])"
    by (intro allI impI) (erule pass)
  show ?thesis
    apply (rule conjI[OF p])
    apply (rule exI[of _ out], rule exI[of _ tot])
    apply (rule conjI[OF t conjI[OF ms conjI[OF l conjI[OF rec stext]]]])
    done
qed

theorem unregistered_edge_rejected_witness:
  \<open>mst_steps_json ex_unknown = Some (trace_text ex_unknown_trace 0, ex_unknown_final) \<and>
   0 < length (edges ex_unknown_final) \<and>
   (map_of (vertices ex_unknown) (src (edges ex_unknown_final ! 0)) = None \<or>
    map_of (vertices ex_unknown) (dst (edges ex_unknown_final ! 0)) = None) \<and>
   vertices ex_unknown_final = vertices ex_unknown \<and>
   steps_loop ex_unknown_final (edges ex_unknown_final ! 0 # []) [] [] 0 [] =
   steps_loop ex_unknown_final [] [] ([] @ [edge_id (edges ex_unknown_final ! 0)]) 0
     ([] @ [\<lparr>consideredEdgeId = edge_id (edges ex_unknown_final ! 0), accepted = False,
             totalWeight = 0, mstEdgeIds = [],
             rejectedEdgeIds = [] @ [edge_id (edges ex_unknown_final ! 0)]\<rparr>]) \<and>
   (\<exists>out tot. trace_text ex_unknown_trace 0 = trace_text out tot \<and>
      mset (edges ex_unknown_final) = mset (edges ex_unknown) \<and>
      length out = length (edges ex_unknown_final) \<and>
      out ! 0 =
        \<lparr>consideredEdgeId = edge_id (edges ex_unknown_final ! 0), accepted = False,
         totalWeight = (if (0::nat) = 0 then 0 else totalWeight (out ! ((0::nat) - 1))),
         mstEdgeIds = (if (0::nat) = 0 then [] else mstEdgeIds (out ! ((0::nat) - 1))),
         rejectedEdgeIds =
           (if (0::nat) = 0 then [] else rejectedEdgeIds (out ! ((0::nat) - 1))) @
           [edge_id (edges ex_unknown_final ! 0)]\<rparr> \<and>
      step_text (out ! 0) =
        ''{"consideredEdgeId":"'' @ json_escape (edge_id (edges ex_unknown_final ! 0)) @
        ''","action":"reject","reason":"cycle","totalWeight":'' @
        show_int (sint (if (0::nat) = 0 then 0 else totalWeight (out ! ((0::nat) - 1)))) @
        '',"mstEdgeIds":['' @
        comma_join (map id_text
          (if (0::nat) = 0 then [] else mstEdgeIds (out ! ((0::nat) - 1)))) @
        ''],"rejectedEdgeIds":['' @
        comma_join (map id_text
          ((if (0::nat) = 0 then [] else rejectedEdgeIds (out ! ((0::nat) - 1))) @
           [edge_id (edges ex_unknown_final ! 0)])) @ '']}'')\<close>
proof -
  have k: "0 < length (edges ex_unknown_final)" by (simp add: ex_unknown_final_def)
  have n: "map_of (vertices ex_unknown) (src (edges ex_unknown_final ! 0)) = None \<or>
           map_of (vertices ex_unknown) (dst (edges ex_unknown_final ! 0)) = None"
    by (simp add: ex_unknown_final_def ex_unknown_def addEdge_def addVertex_def Graph_def)
  have v: "vertices ex_unknown_final = vertices ex_unknown"
    by (simp add: ex_unknown_final_def ex_unknown_def addEdge_def addVertex_def Graph_def)
  note r = unregistered_edge_rejected[OF ex_unknown_json k n]
  show ?thesis
    by (rule conjI[OF ex_unknown_json conjI[OF k conjI[OF n conjI[OF v
          conjI[OF r[THEN conjunct1, rule_format, OF v] r[THEN conjunct2]]]]]])
qed

text \<open>
  C1 as stated fails: the only edge of this engine names the destination \<open>Z\<close>, which was
  never registered, and the text returned by \<^verbatim>\<open>mst_steps_json\<close> has a step for it, with
  its id in \<open>rejectedEdgeIds\<close>.
\<close>

theorem unregistered_edge_gets_step:
  \<open>map_option fst (mst_steps_json ex_unknown) = Some
    ''{"steps":[{"consideredEdgeId":"e1","action":"reject","reason":"cycle","totalWeight":0,"mstEdgeIds":[],"rejectedEdgeIds":["e1"]}],"mstWeight":0}''\<close>
  by (simp add: ex_unknown_def mst_steps_json_def mst_steps_def
      sort_g_def sortEdges.simps make_set_def resize_def union_set_def find_set.simps
      getIndex_def addEdge_def addVertex_def Graph_def Let_def
      trace_json_def step_json_def show_int_def show_nat.simps)

text \<open>C6.  In a state reached from \<^verbatim>\<open>make_set\<close> by unions, for registered \<open>a\<close> and \<open>b\<close>
  with representatives \<open>ra\<close> and \<open>rb\<close>: \<^verbatim>\<open>union_set\<close> returns, and its result is
  \<open>ra \<noteq> rb\<close>.  When the representatives are equal the ranks and the components stay as
  they are.  Otherwise the components of \<open>a\<close> and \<open>b\<close> become one and no other component
  changes; the root of rank not above the other (\<open>link_lo\<close>) gets the other root
  (\<open>link_hi\<close>) as parent, which stays a root, and the rank of \<open>link_hi\<close> grows by one
  exactly when the two ranks were equal.  In both cases the components are those of the
  naive closure of all pairs united so far.\<close>

theorem union_set_merges:
  assumes reach: "dsu_reach g us p r" and aR: "a \<in> registered g" and bR: "b \<in> registered g"
  shows "\<exists>ra rb p' r'. root_of p a ra \<and> root_of p b rb \<and>
     union_set p r a b = Some (ra \<noteq> rb, p', r') \<and>
     dsu_reach g (us @ [(a, b)]) p' r' \<and>
     (\<forall>x\<in>registered g. \<forall>y\<in>registered g.
         same_set p' x y \<longleftrightarrow> (x, y) \<in> conn (us @ [(a, b)])) \<and>
     (ra = rb \<longrightarrow> r' = r \<and>
        (\<forall>x\<in>registered g. \<forall>y\<in>registered g. same_set p' x y \<longleftrightarrow> same_set p x y)) \<and>
     (ra \<noteq> rb \<longrightarrow>
        (\<forall>x\<in>registered g. \<forall>y\<in>registered g.
            same_set p' x y \<longleftrightarrow>
              same_set p x y \<or> (same_set p x a \<and> same_set p y b) \<or>
              (same_set p x b \<and> same_set p y a)) \<and>
        {link_hi r ra rb, link_lo r ra rb} = {ra, rb} \<and>
        sint (r ! nat (link_lo r ra rb)) \<le> sint (r ! nat (link_hi r ra rb)) \<and>
        p' ! nat (link_lo r ra rb) = link_hi r ra rb \<and>
        p' ! nat (link_hi r ra rb) = link_hi r ra rb \<and>
        r' = (if r ! nat ra = r ! nat rb
              then r[nat (link_hi r ra rb) := r ! nat (link_hi r ra rb) + 1] else r))"
proof -
  let ?R = "registered g"
  let ?hi = "link_hi r ra rb" and ?lo = "link_lo r ra rb"
  from reach_inv[OF reach] have inv: "dsu_inv ?R us p r" .
  then have c: "closed_in ?R p" and len: "length r = length p"
    and ex: "\<forall>a\<in>?R. \<exists>s. root_of p a s"
    and cn: "\<And>x y. x \<in> ?R \<Longrightarrow> y \<in> ?R \<Longrightarrow> same_set p x y \<longleftrightarrow> (x, y) \<in> conn us"
    by (simp_all add: dsu_inv_def)
  from ex aR obtain ra where ra: "root_of p a ra" by blast
  from ex bR obtain rb where rb: "root_of p b rb" by blast
  let ?hi = "link_hi r ra rb" and ?lo = "link_lo r ra rb"
  from union_set_props[OF c aR bR len ra rb] obtain p' r' where
    u: "union_set p r a b = Some (ra \<noteq> rb, p', r')"
    and eqr0: "ra = rb \<longrightarrow> r' = r \<and> (\<forall>x s. root_of p x s \<longrightarrow> root_of p' x s)"
    and lk: "ra \<noteq> rb \<longrightarrow> p' ! nat ?lo = ?hi \<and>
              r' = (if r ! nat ra = r ! nat rb then r[nat ?hi := r ! nat ?hi + 1] else r) \<and>
              (\<forall>x s. root_of p x s \<longrightarrow> root_of p' x (if s = ?lo then ?hi else s))"
    by (elim exE conjE)
  from eqr0 have eqr: "ra = rb \<longrightarrow> r' = r" by simp
  from union_step[OF inv aR bR] u have inv': "dsu_inv ?R (us @ [(a, b)]) p' r'"
    by auto
  then have cn': "\<And>x y. x \<in> ?R \<Longrightarrow> y \<in> ?R \<Longrightarrow>
      same_set p' x y \<longleftrightarrow> (x, y) \<in> conn (us @ [(a, b)])"
    by (simp add: dsu_inv_def)
  have re: "dsu_reach g (us @ [(a, b)]) p' r'"
    using reach aR bR u by (rule dsu_reach.union)
  have ab: "(a, b) \<in> conn us \<longleftrightarrow> ra = rb"
    using cn[OF aR bR] same_set_iff[OF ra rb] by simp
  have merge: "same_set p' x y \<longleftrightarrow>
              same_set p x y \<or> (same_set p x a \<and> same_set p y b) \<or>
              (same_set p x b \<and> same_set p y a)" if x: "x \<in> ?R" and y: "y \<in> ?R" for x y
  proof -
    have yb: "same_set p y b \<longleftrightarrow> (b, y) \<in> conn us"
      using cn[OF y bR] by (auto dest: conn_sym)
    have ya: "same_set p y a \<longleftrightarrow> (a, y) \<in> conn us"
      using cn[OF y aR] by (auto dest: conn_sym)
    show ?thesis
      unfolding cn'[OF x y] conn_snoc cn[OF x y] cn[OF x aR] cn[OF x bR] yb ya ..
  qed
  have same: "same_set p' x y \<longleftrightarrow> same_set p x y"
    if eq: "ra = rb" and x: "x \<in> ?R" and y: "y \<in> ?R" for x y
  proof -
    from eq ab have "(a, b) \<in> conn us" by simp
    then have "(x, y) \<in> conn (us @ [(a, b)]) \<longleftrightarrow> (x, y) \<in> conn us"
      unfolding conn_snoc by (meson conn_sym conn_trans)
    then show ?thesis using cn'[OF x y] cn[OF x y] by simp
  qed
  have ranks: "{?hi, ?lo} = {ra, rb} \<and> sint (r ! nat ?lo) \<le> sint (r ! nat ?hi)"
    by (auto simp: link_hi_def link_lo_def)
  have top: "p' ! nat ?hi = ?hi" if ne: "ra \<noteq> rb"
  proof -
    have hl: "?hi \<noteq> ?lo" using ne by (auto simp: link_hi_def link_lo_def)
    from root_of_is_root[OF ra] have "root_of p ra ra" by (intro root_of.root) simp_all
    moreover from root_of_is_root[OF rb] have "root_of p rb rb" by (intro root_of.root) simp_all
    ultimately have "root_of p ?hi ?hi" by (simp add: link_hi_def)
    with lk ne have "root_of p' ?hi (if ?hi = ?lo then ?hi else ?hi)" by blast
    then have "root_of p' ?hi ?hi" by simp
    from root_of_is_root[OF this] show ?thesis by simp
  qed
  have F5: "\<forall>x\<in>registered g. \<forall>y\<in>registered g.
         same_set p' x y \<longleftrightarrow> (x, y) \<in> conn (us @ [(a, b)])"
    using cn' by blast
  have F6: "ra = rb \<longrightarrow> r' = r \<and>
        (\<forall>x\<in>registered g. \<forall>y\<in>registered g. same_set p' x y \<longleftrightarrow> same_set p x y)"
    using eqr same by blast
  have F7: "ra \<noteq> rb \<longrightarrow>
        (\<forall>x\<in>registered g. \<forall>y\<in>registered g.
            same_set p' x y \<longleftrightarrow>
              same_set p x y \<or> (same_set p x a \<and> same_set p y b) \<or>
              (same_set p x b \<and> same_set p y a)) \<and>
        {link_hi r ra rb, link_lo r ra rb} = {ra, rb} \<and>
        sint (r ! nat (link_lo r ra rb)) \<le> sint (r ! nat (link_hi r ra rb)) \<and>
        p' ! nat (link_lo r ra rb) = link_hi r ra rb \<and>
        p' ! nat (link_hi r ra rb) = link_hi r ra rb \<and>
        r' = (if r ! nat ra = r ! nat rb
              then r[nat (link_hi r ra rb) := r ! nat (link_hi r ra rb) + 1] else r)"
  proof (intro impI conjI)
    assume ne: "ra \<noteq> rb"
    show "\<forall>x\<in>registered g. \<forall>y\<in>registered g.
            same_set p' x y \<longleftrightarrow>
              same_set p x y \<or> (same_set p x a \<and> same_set p y b) \<or>
              (same_set p x b \<and> same_set p y a)"
      using merge by blast
    show "{?hi, ?lo} = {ra, rb}" using ranks by (rule conjunct1)
    show "sint (r ! nat ?lo) \<le> sint (r ! nat ?hi)" using ranks by (rule conjunct2)
    show "p' ! nat ?lo = ?hi" using lk ne by blast
    show "p' ! nat ?hi = ?hi" using top[OF ne] .
    show "r' = (if r ! nat ra = r ! nat rb then r[nat ?hi := r ! nat ?hi + 1] else r)"
      using lk ne by blast
  qed
  show ?thesis
    apply (rule exI[of _ ra], rule exI[of _ rb], rule exI[of _ p'], rule exI[of _ r'])
    apply (intro conjI)
          apply (fact ra)
         apply (fact rb)
        apply (fact u)
       apply (fact re)
      apply (fact F5)
     apply (fact F6)
    apply (fact F7)
    done
qed

theorem union_set_merges_witness:
  "dsu_reach ex_pair [] [0, 1] [0, 0] \<and> 0 \<in> registered ex_pair \<and> 1 \<in> registered ex_pair \<and>
   (\<exists>ra rb p' r'. root_of [0, 1] 0 ra \<and> root_of [0, 1] 1 rb \<and>
     union_set [0, 1] [0, 0] 0 1 = Some (ra \<noteq> rb, p', r') \<and>
     dsu_reach ex_pair ([] @ [(0, 1)]) p' r' \<and>
     (\<forall>x\<in>registered ex_pair. \<forall>y\<in>registered ex_pair.
         same_set p' x y \<longleftrightarrow> (x, y) \<in> conn ([] @ [(0, 1)])) \<and>
     (ra = rb \<longrightarrow> r' = [0, 0] \<and>
        (\<forall>x\<in>registered ex_pair. \<forall>y\<in>registered ex_pair.
            same_set p' x y \<longleftrightarrow> same_set [0, 1] x y)) \<and>
     (ra \<noteq> rb \<longrightarrow>
        (\<forall>x\<in>registered ex_pair. \<forall>y\<in>registered ex_pair.
            same_set p' x y \<longleftrightarrow>
              same_set [0, 1] x y \<or> (same_set [0, 1] x 0 \<and> same_set [0, 1] y 1) \<or>
              (same_set [0, 1] x 1 \<and> same_set [0, 1] y 0)) \<and>
        {link_hi [0, 0] ra rb, link_lo [0, 0] ra rb} = {ra, rb} \<and>
        sint ([0, 0 :: 32 word] ! nat (link_lo [0, 0] ra rb))
          \<le> sint ([0, 0 :: 32 word] ! nat (link_hi [0, 0] ra rb)) \<and>
        p' ! nat (link_lo [0, 0] ra rb) = link_hi [0, 0] ra rb \<and>
        p' ! nat (link_hi [0, 0] ra rb) = link_hi [0, 0] ra rb \<and>
        r' = (if [0, 0] ! nat ra = [0, 0 :: 32 word] ! nat rb
              then [0, 0][nat (link_hi [0, 0] ra rb) := [0, 0] ! nat (link_hi [0, 0] ra rb) + 1]
              else [0, 0])))"
proof -
  have ms: "make_set ex_pair =
      Some (ex_pair\<lparr>parent := [0, 1], rnk := [0, 0]\<rparr>)"
    by (simp add: ex_pair_def make_set_def resize_def addVertex_def Graph_def numeral_2_eq_2)
  from dsu_reach.init[OF ms] have 1: "dsu_reach ex_pair [] [0, 1] [0, 0]" by simp
  have 2: "0 \<in> registered ex_pair" and 3: "1 \<in> registered ex_pair"
    by (simp_all add: registered_def ex_pair_def addVertex_def Graph_def)
  show ?thesis
    apply (intro conjI)
       apply (fact 1)
      apply (fact 2)
     apply (fact 3)
    apply (rule union_set_merges[OF 1 2 3])
    done
qed

section \<open>Repeated runs on one engine\<close>

lemma sorted_filter_unique:
  "sorted (map wkey xs) \<Longrightarrow> sorted (map wkey ys) \<Longrightarrow>
   (\<forall>w. filter (\<lambda>e. weight e = w) xs = filter (\<lambda>e. weight e = w) ys) \<Longrightarrow> xs = ys"
proof (induction xs arbitrary: ys)
  case Nil
  have e: "filter (\<lambda>e. weight e = w) ys = []" for w
    using Nil.prems(3)[rule_format, of w] by simp
  have "ys = []"
  proof (cases ys)
    case Nil
    then show ?thesis .
  next
    case (Cons y ys')
    with e[of "weight y"] show ?thesis by simp
  qed
  then show ?case by simp
next
  case (Cons x xs)
  have fx: "filter (\<lambda>e. weight e = weight x) ys = x # filter (\<lambda>e. weight e = weight x) xs"
    using Cons.prems(3)[rule_format, of "weight x"] by simp
  then have "ys \<noteq> []" by auto
  then obtain y ys' where ys: "ys = y # ys'" by (cases ys) auto
  have "x \<in> set (filter (\<lambda>e. weight e = weight x) ys)" unfolding fx by simp
  then have xin: "x \<in> set ys" by simp
  have "filter (\<lambda>e. weight e = weight y) (x # xs) = y # filter (\<lambda>e. weight e = weight y) ys'"
    using Cons.prems(3)[rule_format, of "weight y"] ys by simp
  then have "y \<in> set (filter (\<lambda>e. weight e = weight y) (x # xs))" by simp
  then have yin: "y \<in> set (x # xs)" by (simp only: set_filter) blast
  have "wkey x \<le> wkey y" using Cons.prems(1) yin by auto
  moreover have "wkey y \<le> wkey x" using Cons.prems(2) xin ys by auto
  ultimately have "wkey x = wkey y" by simp
  then have w: "weight x = weight y" unfolding wkey_def by (rule signed_word_eqI)
  with fx ys have xy: "x = y" by simp
  have "\<forall>w. filter (\<lambda>e. weight e = w) xs = filter (\<lambda>e. weight e = w) ys'"
  proof
    fix w
    from Cons.prems(3)[rule_format, of w] ys xy
    show "filter (\<lambda>e. weight e = w) xs = filter (\<lambda>e. weight e = w) ys'"
      by (simp split: if_splits)
  qed
  moreover have "sorted (map wkey xs)" "sorted (map wkey ys')"
    using Cons.prems(1,2) ys by simp_all
  ultimately have "xs = ys'" by (intro Cons.IH)
  with xy ys show ?case by simp
qed

lemma filter_distinct_key:
  "distinct (map f xs) \<Longrightarrow> length (filter (\<lambda>e. f e = w) xs) \<le> 1"
proof (induction xs)
  case Nil
  show ?case by simp
next
  case (Cons x xs)
  show ?case
  proof (cases "f x = w")
    case True
    have "f e \<noteq> w" if "e \<in> set xs" for e
    proof
      assume "f e = w"
      with True have "f x = f e" by simp
      with that have "f x \<in> f ` set xs" by (rule_tac image_eqI)
      with Cons.prems show False by simp
    qed
    then have "filter (\<lambda>e. f e = w) xs = []"
      by (simp add: filter_empty_conv)
    with True show ?thesis by simp
  next
    case False
    with Cons show ?thesis by simp
  qed
qed

lemma rev_short: "length xs \<le> 1 \<Longrightarrow> rev xs = xs"
  by (cases xs) auto

lemma mst_Some_well_formed:
  assumes "mst g = Some q"
  shows "well_formed g"
proof -
  from assms obtain g1 g2 where "sort_g g = Some g1" "make_set g1 = Some g2"
    by (auto simp: mst_def split: Option.bind_splits)
  moreover from sort_g_props[of g] obtain es where "sort_g g = Some (g\<lparr>edges := es\<rparr>)"
    by (elim exE conjE)
  ultimately have "well_formed (g\<lparr>edges := es\<rparr>)"
    using make_set_well_formed by auto
  then show ?thesis by (simp add: well_formed_def)
qed

lemma run_shape:
  assumes wf: "well_formed h"
  shows "\<exists>es p0 r0 acc cost pf rf out.
     sort_g h = Some (h\<lparr>edges := es\<rparr>) \<and> sorted (map wkey es) \<and>
     (\<forall>w. filter (\<lambda>e. weight e = w) es = rev (filter (\<lambda>e. weight e = w) (edges h))) \<and>
     length p0 = nat (numVertices h) \<and> length r0 = nat (numVertices h) \<and>
     (\<forall>i. p0 ! i = (if int i \<in> registered h then int i
                    else resize (parent h) (nat (numVertices h)) 0 ! i)) \<and>
     (\<forall>i. r0 ! i = (if int i \<in> registered h then 0
                    else resize (rnk h) (nat (numVertices h)) 0 ! i)) \<and>
     mst h = mst_loop (h\<lparr>edges := es, parent := p0, rnk := r0\<rparr>) es [] 0 \<and>
     mst_steps h = steps_loop (h\<lparr>edges := es, parent := p0, rnk := r0\<rparr>) es [] [] 0 [] \<and>
     mst h = Some (acc, cost, h\<lparr>edges := es, parent := pf, rnk := rf\<rparr>) \<and>
     mst_steps h = Some (out, cost, h\<lparr>edges := es, parent := pf, rnk := rf\<rparr>) \<and>
     length pf = nat (numVertices h) \<and> length rf = nat (numVertices h) \<and>
     (\<forall>i. int i \<notin> registered h \<longrightarrow> pf ! i = p0 ! i \<and> rf ! i = r0 ! i)"
proof -
  let ?n = "nat (numVertices h)" and ?R = "registered h"
  from sort_g_props[of h] obtain es where es: "sort_g h = Some (h\<lparr>edges := es\<rparr>)"
    and srt: "sorted (map wkey es)"
      "\<forall>w. filter (\<lambda>e. weight e = w) es = rev (filter (\<lambda>e. weight e = w) (edges h))"
    by (elim exE conjE)
  let ?h1 = "h\<lparr>edges := es\<rparr>"
  have wf1: "well_formed ?h1" using wf by (simp add: well_formed_def)
  from make_set_props[OF wf1] obtain p0 r0 where
    ms: "make_set ?h1 = Some (?h1\<lparr>parent := p0, rnk := r0\<rparr>)"
    and l0: "length p0 = nat (numVertices ?h1)" "length r0 = nat (numVertices ?h1)"
    and c0: "\<forall>i. p0 ! i = (if int i \<in> registered ?h1 then int i
                          else resize (parent ?h1) (nat (numVertices ?h1)) 0 ! i)"
            "\<forall>i. r0 ! i = (if int i \<in> registered ?h1 then 0
                          else resize (rnk ?h1) (nat (numVertices ?h1)) 0 ! i)"
    by (elim exE conjE)
  let ?h2 = "h\<lparr>edges := es, parent := p0, rnk := r0\<rparr>"
  have R1: "registered ?h1 = ?R" by (simp add: registered_def)
  from init_inv[OF wf1 ms] have inv0: "dsu_inv ?R [] p0 r0" by (simp add: R1)
  from dsu_run_inv[of h "[]" p0 r0 es, OF inv0] obtain ds pf rf where
    run: "dsu_run h es p0 r0 = Some (ds, pf, rf)"
    and inv: "dsu_inv ?R ([] @ edge_pairs h es) pf rf"
    and fr: "\<forall>i. int i \<notin> ?R \<longrightarrow> pf ! i = p0 ! i \<and> rf ! i = r0 ! i"
    and lp: "length pf = length p0"
    by (elim exE conjE)
  from inv have lr: "length rf = length pf" by (simp add: dsu_inv_def)
  have v2: "vertices ?h2 = vertices h" by simp
  have "dsu_run ?h2 es (parent ?h2) (rnk ?h2) = dsu_run h es p0 r0"
    using dsu_run_vcong[OF v2] by simp
  then have ml: "mst_loop ?h2 es [] 0 =
      Some (accepted_of es ds, sum_list (map weight (accepted_of es ds)),
            h\<lparr>edges := es, parent := pf, rnk := rf\<rparr>)"
    unfolding mst_loop_run using run by simp
  have m: "mst h = mst_loop ?h2 es [] 0" using es ms by (simp add: mst_def)
  have s: "mst_steps h = steps_loop ?h2 es [] [] 0 []" using es ms by (simp add: mst_steps_def)
  have "map_option snd (steps_loop ?h2 es [] [] 0 []) = map_option snd (mst_loop ?h2 es [] 0)"
    by (rule loops_agree)
  with ml obtain out where
    sl: "steps_loop ?h2 es [] [] 0 [] =
      Some (out, sum_list (map weight (accepted_of es ds)), h\<lparr>edges := es, parent := pf, rnk := rf\<rparr>)"
    by (cases "steps_loop ?h2 es [] [] 0 []") auto
  show ?thesis
    apply (rule exI[of _ es], rule exI[of _ p0], rule exI[of _ r0])
    apply (rule exI[of _ "accepted_of es ds"])
    apply (rule exI[of _ "sum_list (map weight (accepted_of es ds))"])
    apply (rule exI[of _ pf], rule exI[of _ rf], rule exI[of _ out])
    using es srt l0 c0 m s ml sl fr lp lr by (simp add: R1)
qed

lemma arrays_eq:
  assumes "length p = n" "length q = n"
    and "\<forall>i. p ! i = (if int i \<in> R then v i else a ! i)"
    and "\<forall>i. q ! i = (if int i \<in> R then v i else b ! i)"
    and "\<forall>i. int i \<notin> R \<longrightarrow> b ! i = p ! i"
  shows "q = p"
proof (rule nth_equalityI)
  show "length q = length p" using assms(1,2) by simp
next
  fix i assume "i < length q"
  show "q ! i = p ! i"
    using assms(3)[rule_format, of i] assms(4)[rule_format, of i] assms(5)[rule_format, of i]
    by (cases "int i \<in> R") simp_all
qed

lemma next_run:
  assumes wf: "well_formed g"
    and lp0: "length p0 = nat (numVertices g)" and lr0: "length r0 = nat (numVertices g)"
    and cp0: "\<forall>i. int i \<in> registered g \<longrightarrow> p0 ! i = int i \<and> r0 ! i = 0"
    and lpf: "length pf = nat (numVertices g)" and lrf: "length rf = nat (numVertices g)"
    and fr: "\<forall>i. int i \<notin> registered g \<longrightarrow> pf ! i = p0 ! i \<and> rf ! i = r0 ! i"
  shows "\<exists>es' acc' cost' pf' rf' out'.
     sorted (map wkey es') \<and>
     (\<forall>w. filter (\<lambda>e. weight e = w) es' = rev (filter (\<lambda>e. weight e = w) es)) \<and>
     mst (g\<lparr>edges := es, parent := pf, rnk := rf\<rparr>) =
       mst_loop (g\<lparr>edges := es', parent := p0, rnk := r0\<rparr>) es' [] 0 \<and>
     mst_steps (g\<lparr>edges := es, parent := pf, rnk := rf\<rparr>) =
       steps_loop (g\<lparr>edges := es', parent := p0, rnk := r0\<rparr>) es' [] [] 0 [] \<and>
     mst (g\<lparr>edges := es, parent := pf, rnk := rf\<rparr>) =
       Some (acc', cost', g\<lparr>edges := es', parent := pf', rnk := rf'\<rparr>) \<and>
     mst_steps (g\<lparr>edges := es, parent := pf, rnk := rf\<rparr>) =
       Some (out', cost', g\<lparr>edges := es', parent := pf', rnk := rf'\<rparr>) \<and>
     length pf' = nat (numVertices g) \<and> length rf' = nat (numVertices g) \<and>
     (\<forall>i. int i \<notin> registered g \<longrightarrow> pf' ! i = p0 ! i \<and> rf' ! i = r0 ! i)"
proof -
  let ?n = "nat (numVertices g)" and ?R = "registered g"
  let ?h = "g\<lparr>edges := es, parent := pf, rnk := rf\<rparr>"
  have wfh: "well_formed ?h" using wf by (simp add: well_formed_def)
  have Rh: "registered ?h = ?R" by (simp add: registered_def)
  from run_shape[OF wfh] obtain es' p1 r1 acc' cost' pf' rf' out' where
    raw: "sorted (map wkey es')"
       "\<forall>w. filter (\<lambda>e. weight e = w) es' = rev (filter (\<lambda>e. weight e = w) (edges ?h))"
       "length p1 = nat (numVertices ?h)" "length r1 = nat (numVertices ?h)"
       "\<forall>i. p1 ! i = (if int i \<in> registered ?h then int i
                    else resize (parent ?h) (nat (numVertices ?h)) 0 ! i)"
       "\<forall>i. r1 ! i = (if int i \<in> registered ?h then 0
                    else resize (rnk ?h) (nat (numVertices ?h)) 0 ! i)"
       "mst ?h = mst_loop (?h\<lparr>edges := es', parent := p1, rnk := r1\<rparr>) es' [] 0"
       "mst_steps ?h = steps_loop (?h\<lparr>edges := es', parent := p1, rnk := r1\<rparr>) es' [] [] 0 []"
       "mst ?h = Some (acc', cost', ?h\<lparr>edges := es', parent := pf', rnk := rf'\<rparr>)"
       "mst_steps ?h = Some (out', cost', ?h\<lparr>edges := es', parent := pf', rnk := rf'\<rparr>)"
       "length pf' = nat (numVertices ?h)" "length rf' = nat (numVertices ?h)"
       "\<forall>i. int i \<notin> registered ?h \<longrightarrow> pf' ! i = p1 ! i \<and> rf' ! i = r1 ! i"
    by (elim exE conjE)
  have p1: "p1 = p0"
  proof (rule nth_equalityI)
    show "length p1 = length p0" using raw(3) lp0 by simp
  next
    fix i assume "i < length p1"
    show "p1 ! i = p0 ! i"
      using raw(5)[rule_format, of i] cp0[rule_format, of i] fr[rule_format, of i] lpf
      by (cases "int i \<in> ?R") (simp_all add: Rh resize_def)
  qed
  have r1: "r1 = r0"
  proof (rule nth_equalityI)
    show "length r1 = length r0" using raw(4) lr0 by simp
  next
    fix i assume "i < length r1"
    show "r1 ! i = r0 ! i"
      using raw(6)[rule_format, of i] cp0[rule_format, of i] fr[rule_format, of i] lrf
      by (cases "int i \<in> ?R") (simp_all add: Rh resize_def)
  qed
  have 1: "\<forall>w. filter (\<lambda>e. weight e = w) es' = rev (filter (\<lambda>e. weight e = w) es)"
    using raw(2) by simp
  have 2: "mst ?h = mst_loop (g\<lparr>edges := es', parent := p0, rnk := r0\<rparr>) es' [] 0"
    using raw(7) by (simp add: p1 r1)
  have 3: "mst_steps ?h = steps_loop (g\<lparr>edges := es', parent := p0, rnk := r0\<rparr>) es' [] [] 0 []"
    using raw(8) by (simp add: p1 r1)
  have 4: "mst ?h = Some (acc', cost', g\<lparr>edges := es', parent := pf', rnk := rf'\<rparr>)"
    using raw(9) by simp
  have 5: "mst_steps ?h = Some (out', cost', g\<lparr>edges := es', parent := pf', rnk := rf'\<rparr>)"
    using raw(10) by simp
  have 6: "length pf' = ?n" "length rf' = ?n" using raw(11,12) by simp_all
  have 7: "\<forall>i. int i \<notin> ?R \<longrightarrow> pf' ! i = p0 ! i \<and> rf' ! i = r0 ! i"
    using raw(13) by (simp add: Rh p1 r1)
  show ?thesis
    apply (rule exI[of _ es'], rule exI[of _ acc'], rule exI[of _ cost'])
    apply (rule exI[of _ pf'], rule exI[of _ rf'], rule exI[of _ out'])
    apply (intro conjI)
            apply (fact raw(1))
           apply (fact 1)
          apply (fact 2)
         apply (fact 3)
        apply (fact 4)
       apply (fact 5)
      apply (fact 6(1))
     apply (fact 6(2))
    apply (fact 7)
    done
qed

lemma three_runs:
  assumes wf: "well_formed g"
  shows "\<exists>g1 g2 acc cost out acc2 cost2 out2.
    mst g = Some (acc, cost, g1) \<and> mst_steps g = Some (out, cost, g1) \<and>
    mst g1 = Some (acc2, cost2, g2) \<and> mst_steps g1 = Some (out2, cost2, g2) \<and>
    mst g2 = Some (acc, cost, g1) \<and> mst_steps g2 = Some (out, cost, g1) \<and>
    (distinct (map weight (edges g)) \<longrightarrow>
       mst g1 = Some (acc, cost, g1) \<and> mst_steps g1 = Some (out, cost, g1))"
proof -
  let ?n = "nat (numVertices g)" and ?R = "registered g"
  from run_shape[OF wf] obtain es1 p0 r0 acc cost pf rf out where
    a: "sorted (map wkey es1)"
       "\<forall>w. filter (\<lambda>e. weight e = w) es1 = rev (filter (\<lambda>e. weight e = w) (edges g))"
       "length p0 = ?n" "length r0 = ?n"
       "\<forall>i. p0 ! i = (if int i \<in> ?R then int i else resize (parent g) ?n 0 ! i)"
       "\<forall>i. r0 ! i = (if int i \<in> ?R then 0 else resize (rnk g) ?n 0 ! i)"
       "mst g = mst_loop (g\<lparr>edges := es1, parent := p0, rnk := r0\<rparr>) es1 [] 0"
       "mst_steps g = steps_loop (g\<lparr>edges := es1, parent := p0, rnk := r0\<rparr>) es1 [] [] 0 []"
       "mst g = Some (acc, cost, g\<lparr>edges := es1, parent := pf, rnk := rf\<rparr>)"
       "mst_steps g = Some (out, cost, g\<lparr>edges := es1, parent := pf, rnk := rf\<rparr>)"
       "length pf = ?n" "length rf = ?n"
       "\<forall>i. int i \<notin> ?R \<longrightarrow> pf ! i = p0 ! i \<and> rf ! i = r0 ! i"
    by (elim exE conjE)
  have cp0: "\<forall>i. int i \<in> ?R \<longrightarrow> p0 ! i = int i \<and> r0 ! i = 0"
    using a(5,6) by simp
  let ?g1 = "g\<lparr>edges := es1, parent := pf, rnk := rf\<rparr>"
  from next_run[OF wf a(3) a(4) cp0 a(11) a(12) a(13), of es1]
  obtain es2 acc2 cost2 pf2 rf2 out2 where
    b: "sorted (map wkey es2)"
       "\<forall>w. filter (\<lambda>e. weight e = w) es2 = rev (filter (\<lambda>e. weight e = w) es1)"
       "mst ?g1 = mst_loop (g\<lparr>edges := es2, parent := p0, rnk := r0\<rparr>) es2 [] 0"
       "mst_steps ?g1 = steps_loop (g\<lparr>edges := es2, parent := p0, rnk := r0\<rparr>) es2 [] [] 0 []"
       "mst ?g1 = Some (acc2, cost2, g\<lparr>edges := es2, parent := pf2, rnk := rf2\<rparr>)"
       "mst_steps ?g1 = Some (out2, cost2, g\<lparr>edges := es2, parent := pf2, rnk := rf2\<rparr>)"
       "length pf2 = ?n" "length rf2 = ?n"
       "\<forall>i. int i \<notin> ?R \<longrightarrow> pf2 ! i = p0 ! i \<and> rf2 ! i = r0 ! i"
    by (elim exE conjE)
  let ?g2 = "g\<lparr>edges := es2, parent := pf2, rnk := rf2\<rparr>"
  from next_run[OF wf a(3) a(4) cp0 b(7) b(8) b(9), of es2]
  obtain es3 where
    c: "sorted (map wkey es3)"
       "\<forall>w. filter (\<lambda>e. weight e = w) es3 = rev (filter (\<lambda>e. weight e = w) es2)"
       "mst ?g2 = mst_loop (g\<lparr>edges := es3, parent := p0, rnk := r0\<rparr>) es3 [] 0"
       "mst_steps ?g2 = steps_loop (g\<lparr>edges := es3, parent := p0, rnk := r0\<rparr>) es3 [] [] 0 []"
    by (elim exE conjE)
  have "\<forall>w. filter (\<lambda>e. weight e = w) es3 = filter (\<lambda>e. weight e = w) es1"
    using c(2) b(2) by simp
  from sorted_filter_unique[OF c(1) a(1) this] have e3: "es3 = es1" .
  have t1: "mst ?g2 = Some (acc, cost, ?g1)"
    using c(3) a(7) a(9) unfolding e3 by simp
  have t2: "mst_steps ?g2 = Some (out, cost, ?g1)"
    using c(4) a(8) a(10) unfolding e3 by simp
  have same: "mst ?g1 = Some (acc, cost, ?g1) \<and> mst_steps ?g1 = Some (out, cost, ?g1)"
    if d: "distinct (map weight (edges g))"
  proof -
    have "filter (\<lambda>e. weight e = w) es2 = filter (\<lambda>e. weight e = w) es1" for w
      using b(2)[rule_format, of w] a(2)[rule_format, of w]
        rev_short[OF filter_distinct_key[OF d, of w]] by simp
    then have e2: "es2 = es1" using sorted_filter_unique[OF b(1) a(1)] by blast
    have "mst ?g1 = Some (acc, cost, ?g1)" using b(3) a(7) a(9) unfolding e2 by simp
    moreover have "mst_steps ?g1 = Some (out, cost, ?g1)"
      using b(4) a(8) a(10) unfolding e2 by simp
    ultimately show ?thesis by simp
  qed
  show ?thesis
    apply (rule exI[of _ ?g1], rule exI[of _ ?g2], rule exI[of _ acc], rule exI[of _ cost])
    apply (rule exI[of _ out], rule exI[of _ acc2], rule exI[of _ cost2], rule exI[of _ out2])
    apply (intro conjI impI)
           apply (fact a(9))
          apply (fact a(10))
         apply (fact b(5))
        apply (fact b(6))
       apply (fact t1)
      apply (fact t2)
     apply (erule same[THEN conjunct1])
    apply (erule same[THEN conjunct2])
    done
qed

lemma mst_steps_Some_well_formed:
  assumes "mst_steps g = Some q"
  shows "well_formed g"
proof -
  obtain out tot g' where "q = (out, tot, g')" by (cases q)
  with assms have "mst_steps g = Some (out, tot, g')" by simp
  from mst_steps_unfold[OF this] obtain es g2 where "make_set (g\<lparr>edges := es\<rparr>) = Some g2"
    by (elim exE conjE)
  from make_set_well_formed[OF this] show ?thesis by (simp add: well_formed_def)
qed

lemma ex_two_mst:
  "mst ex_two = Some ([\<lparr>edge_id = ''e1'', weight = 1, src = ''A'', dst = ''B''\<rparr>], 1, ex_two_final)"
  by (simp add: ex_two_def ex_two_final_def mst_def
      sort_g_def sortEdges.simps make_set_def resize_def union_set_def find_set.simps
      getIndex_def addEdge_def addVertex_def Graph_def numeral_2_eq_2 Let_def)

text \<open>
  C3, as the code has it.  Every run sorts the stored edge list again, and the sort reverses
  the order of edges of equal weight.  So on one engine the third run returns what the
  first returned, and leaves the engine as the first left it: the results of \<^verbatim>\<open>mst\<close>, and
  those of \<^verbatim>\<open>mst_steps_json\<close>, repeat with period two.  When no two edges have the same
  weight, the second run already returns what the first returned, and so does every later
  one, since it leaves the engine in the state it found.
\<close>

theorem repeated_runs:
  "(mst g = Some (acc, cost, g1) \<longrightarrow>
      (\<exists>acc2 cost2 g2. mst g1 = Some (acc2, cost2, g2) \<and> mst g2 = Some (acc, cost, g1)) \<and>
      (distinct (map weight (edges g)) \<longrightarrow> mst g1 = Some (acc, cost, g1))) \<and>
   (mst_steps_json g = Some (js, h1) \<longrightarrow>
      (\<exists>js2 h2. mst_steps_json h1 = Some (js2, h2) \<and> mst_steps_json h2 = Some (js, h1)) \<and>
      (distinct (map weight (edges g)) \<longrightarrow> mst_steps_json h1 = Some (js, h1)))"
proof (intro conjI impI)
  assume m: "mst g = Some (acc, cost, g1)"
  from three_runs[OF mst_Some_well_formed[OF m]] m
  show "\<exists>acc2 cost2 g2. mst g1 = Some (acc2, cost2, g2) \<and> mst g2 = Some (acc, cost, g1)"
    by auto
next
  assume m: "mst g = Some (acc, cost, g1)" and d: "distinct (map weight (edges g))"
  from three_runs[OF mst_Some_well_formed[OF m]] m d
  show "mst g1 = Some (acc, cost, g1)" by auto
next
  assume j: "mst_steps_json g = Some (js, h1)"
  then obtain out tot where s: "mst_steps g = Some (out, tot, h1)" and js: "js = trace_json out tot"
    by (auto simp: mst_steps_json_def)
  from three_runs[OF mst_steps_Some_well_formed[OF s]] s obtain g2 out2 cost2 where
    "mst_steps h1 = Some (out2, cost2, g2)" "mst_steps g2 = Some (out, tot, h1)"
    by auto
  then have "mst_steps_json h1 = Some (trace_json out2 cost2, g2)"
    "mst_steps_json g2 = Some (js, h1)"
    by (simp_all add: mst_steps_json_def js)
  then show "\<exists>js2 h2. mst_steps_json h1 = Some (js2, h2) \<and> mst_steps_json h2 = Some (js, h1)"
    by blast
next
  assume j: "mst_steps_json g = Some (js, h1)" and d: "distinct (map weight (edges g))"
  from j obtain out tot where s: "mst_steps g = Some (out, tot, h1)" and js: "js = trace_json out tot"
    by (auto simp: mst_steps_json_def)
  from three_runs[OF mst_steps_Some_well_formed[OF s]] s d
  have "mst_steps h1 = Some (out, tot, h1)" by auto
  then show "mst_steps_json h1 = Some (js, h1)"
    by (simp add: mst_steps_json_def js)
qed

theorem repeated_runs_witness:
  "mst ex_two =
     Some ([\<lparr>edge_id = ''e1'', weight = 1, src = ''A'', dst = ''B''\<rparr>], 1, ex_two_final) \<and>
   mst_steps_json ex_two = Some (trace_json ex_two_trace 1, ex_two_final) \<and>
   distinct (map weight (edges ex_two)) \<and>
   mst ex_two_final =
     Some ([\<lparr>edge_id = ''e1'', weight = 1, src = ''A'', dst = ''B''\<rparr>], 1, ex_two_final) \<and>
   mst_steps_json ex_two_final = Some (trace_json ex_two_trace 1, ex_two_final)"
proof -
  have 1: "mst_steps_json ex_two = Some (trace_json ex_two_trace 1, ex_two_final)"
    using ex_two_run by (simp add: mst_steps_json_def)
  have 2: "distinct (map weight (edges ex_two))"
    by (simp add: ex_two_def addEdge_def addVertex_def Graph_def)
  from repeated_runs[of ex_two _ 1 ex_two_final "trace_json ex_two_trace 1" ex_two_final]
    ex_two_mst 1 2
  show ?thesis by blast
qed

text \<open>
  C3 as stated fails on two parallel edges of equal weight: the first run of \<^verbatim>\<open>mst\<close>
  returns \<open>e2\<close>, the second run on the same engine returns \<open>e1\<close>.
\<close>

theorem second_run_differs:
  "mst ex_tie =
     Some ([\<lparr>edge_id = ''e2'', weight = 5, src = ''A'', dst = ''B''\<rparr>], 5, ex_tie_once) \<and>
   mst ex_tie_once =
     Some ([\<lparr>edge_id = ''e1'', weight = 5, src = ''A'', dst = ''B''\<rparr>], 5, ex_tie_twice)"
  by (simp add: ex_tie_def ex_tie_once_def ex_tie_twice_def mst_def
      sort_g_def sortEdges.simps make_set_def resize_def union_set_def find_set.simps
      getIndex_def addEdge_def addVertex_def Graph_def numeral_2_eq_2 Let_def)

end
